theory Spec2Isabelle
  imports Complex_Main "HOL-Library.Sublist"
begin

unbundle bit_operations_syntax

chapter \<open>The model\<close>

section \<open>Python values\<close>

text \<open>
  A Python \<open>str\<close> is a sequence of Unicode code points, so a string is a list of
  natural numbers and \<open>length\<close> counts what Python's \<open>len\<close> counts.  \<open>ustr\<close> reads an
  ASCII literal as such a string.  A \<open>bytes\<close> value is a list of numbers below 256.
\<close>

type_synonym pystr = "nat list"
type_synonym bytes = "nat list"

definition ustr :: "string \<Rightarrow> pystr" where
  "ustr s = map of_char s"

datatype error =
    UnicodeEncodeError
  | ValueError
  | TypeError
  | AttributeError
  | KeyError
  | IndexError
  | RuntimeError
  | ClientError

section \<open>The uploader: fingerprints\<close>

subsection \<open>\<open>str.encode("utf-8")\<close>\<close>

text \<open>
  The strict UTF-8 codec: one to four bytes per code point; a surrogate code point
  (U+D800 to U+DFFF) raises \<open>UnicodeEncodeError\<close>.  Numbers from \<open>0x110000\<close> on are
  not code points of any Python string; the encoder rejects them too.
\<close>

definition utf8_char :: "nat \<Rightarrow> error + bytes" where
  "utf8_char c =
     (if c < 0x80 then Inr [c]
      else if c < 0x800 then Inr [0xC0 + c div 64, 0x80 + c mod 64]
      else if 0xD800 \<le> c \<and> c \<le> 0xDFFF then Inl UnicodeEncodeError
      else if c < 0x10000 then
        Inr [0xE0 + c div 4096, 0x80 + (c div 64) mod 64, 0x80 + c mod 64]
      else if c < 0x110000 then
        Inr [0xF0 + c div 262144, 0x80 + (c div 4096) mod 64,
             0x80 + (c div 64) mod 64, 0x80 + c mod 64]
      else Inl UnicodeEncodeError)"

fun encode_utf8 :: "pystr \<Rightarrow> error + bytes" where
  "encode_utf8 [] = Inr []"
| "encode_utf8 (c # cs) =
     (case utf8_char c of
        Inl e \<Rightarrow> Inl e
      | Inr bs \<Rightarrow> (case encode_utf8 cs of Inl e \<Rightarrow> Inl e | Inr rest \<Rightarrow> Inr (bs @ rest)))"

definition scalar_value :: "nat \<Rightarrow> bool" where
  "scalar_value c = (c < 0xD800 \<or> (0xDFFF < c \<and> c < 0x110000))"

definition encodable :: "pystr \<Rightarrow> bool" where
  "encodable s = list_all scalar_value s"

subsection \<open>\<open>hashlib.sha256\<close>\<close>

text \<open>
  SHA-256 as FIPS 180-4 defines it, on 32-bit words held as natural numbers with the
  reduction modulo \<open>2 ^ 32\<close> written out.  The round constants and the initial state
  are given in decimal.
\<close>

definition add32 :: "nat \<Rightarrow> nat \<Rightarrow> nat" where
  "add32 a b = (a + b) mod 4294967296"

definition rotr :: "nat \<Rightarrow> nat \<Rightarrow> nat" where
  "rotr n x = x div 2 ^ n + (x mod 2 ^ n) * 2 ^ (32 - n)"

definition not32 :: "nat \<Rightarrow> nat" where
  "not32 x = 4294967295 - x"

definition Ch :: "nat \<Rightarrow> nat \<Rightarrow> nat \<Rightarrow> nat" where
  "Ch e f g = (e AND f) XOR (not32 e AND g)"

definition Maj :: "nat \<Rightarrow> nat \<Rightarrow> nat \<Rightarrow> nat" where
  "Maj a b c = (a AND b) XOR (a AND c) XOR (b AND c)"

definition bsig0 :: "nat \<Rightarrow> nat" where
  "bsig0 x = rotr 2 x XOR rotr 13 x XOR rotr 22 x"

definition bsig1 :: "nat \<Rightarrow> nat" where
  "bsig1 x = rotr 6 x XOR rotr 11 x XOR rotr 25 x"

definition ssig0 :: "nat \<Rightarrow> nat" where
  "ssig0 x = rotr 7 x XOR rotr 18 x XOR x div 2 ^ 3"

definition ssig1 :: "nat \<Rightarrow> nat" where
  "ssig1 x = rotr 17 x XOR rotr 19 x XOR x div 2 ^ 10"

definition K256 :: "nat list" where
  "K256 =
    [1116352408, 1899447441, 3049323471, 3921009573, 961987163, 1508970993, 2453635748,
     2870763221, 3624381080, 310598401, 607225278, 1426881987, 1925078388, 2162078206,
     2614888103, 3248222580, 3835390401, 4022224774, 264347078, 604807628, 770255983,
     1249150122, 1555081692, 1996064986, 2554220882, 2821834349, 2952996808, 3210313671,
     3336571891, 3584528711, 113926993, 338241895, 666307205, 773529912, 1294757372,
     1396182291, 1695183700, 1986661051, 2177026350, 2456956037, 2730485921, 2820302411,
     3259730800, 3345764771, 3516065817, 3600352804, 4094571909, 275423344, 430227734,
     506948616, 659060556, 883997877, 958139571, 1322822218, 1537002063, 1747873779,
     1955562222, 2024104815, 2227730452, 2361852424, 2428436474, 2756734187, 3204031479,
     3329325298]"

type_synonym hstate = "nat \<times> nat \<times> nat \<times> nat \<times> nat \<times> nat \<times> nat \<times> nat"

definition H256 :: hstate where
  "H256 = (1779033703, 3144134277, 1013904242, 2773480762,
           1359893119, 2600822924, 528734635, 1541459225)"

definition be64 :: "nat \<Rightarrow> bytes" where
  "be64 n = map (\<lambda>i. (n div 256 ^ i) mod 256) [7, 6, 5, 4, 3, 2, 1, 0]"

definition pad :: "bytes \<Rightarrow> bytes" where
  "pad m = m @ [0x80] @ replicate ((119 - length m mod 64) mod 64) 0 @ be64 (8 * length m)"

fun block_words :: "bytes \<Rightarrow> nat list" where
  "block_words (a # b # c # d # r) = (16777216 * a + 65536 * b + 256 * c + d) # block_words r"
| "block_words _ = []"

fun extend :: "nat list \<Rightarrow> nat list \<Rightarrow> nat list" where
  "extend [] w = w"
| "extend (t # ts) w =
     extend ts
       (w @ [add32 (add32 (add32 (ssig1 (w ! (t - 2))) (w ! (t - 7))) (ssig0 (w ! (t - 15))))
                   (w ! (t - 16))])"

definition schedule :: "bytes \<Rightarrow> nat list" where
  "schedule blk = extend [16..<64] (block_words blk)"

fun step2 :: "nat \<Rightarrow> nat \<Rightarrow> hstate \<Rightarrow> hstate" where
  "step2 t1 t2 (a, b, c, d, e, f, g, h) = (add32 t1 t2, a, b, c, add32 d t1, e, f, g)"

fun round_step :: "nat \<Rightarrow> nat \<Rightarrow> hstate \<Rightarrow> hstate" where
  "round_step k w (a, b, c, d, e, f, g, h) =
     step2 (add32 (add32 (add32 (add32 h (bsig1 e)) (Ch e f g)) k) w)
           (add32 (bsig0 a) (Maj a b c)) (a, b, c, d, e, f, g, h)"

fun rounds :: "nat list \<Rightarrow> nat list \<Rightarrow> hstate \<Rightarrow> hstate" where
  "rounds (k # ks) (w # ws) s = rounds ks ws (round_step k w s)"
| "rounds _ _ s = s"

fun add_state :: "hstate \<Rightarrow> hstate \<Rightarrow> hstate" where
  "add_state (a, b, c, d, e, f, g, h) (a', b', c', d', e', f', g', h') =
     (add32 a a', add32 b b', add32 c c', add32 d d',
      add32 e e', add32 f f', add32 g g', add32 h h')"

definition compress :: "hstate \<Rightarrow> bytes \<Rightarrow> hstate" where
  "compress H blk = add_state H (rounds K256 (schedule blk) H)"

function sha_blocks :: "hstate \<Rightarrow> bytes \<Rightarrow> hstate" where
  "sha_blocks H [] = H"
| "sha_blocks H (b # bs) = sha_blocks (compress H (take 64 (b # bs))) (drop 64 (b # bs))"
  by pat_completeness auto
termination
  by (relation "measure (\<lambda>(H, bs). length bs)") auto

definition word_bytes :: "nat \<Rightarrow> bytes" where
  "word_bytes x = [x div 16777216, (x div 65536) mod 256, (x div 256) mod 256, x mod 256]"

fun state_bytes :: "hstate \<Rightarrow> bytes" where
  "state_bytes (a, b, c, d, e, f, g, h) = concat (map word_bytes [a, b, c, d, e, f, g, h])"

definition sha256 :: "bytes \<Rightarrow> bytes" where
  "sha256 m = state_bytes (sha_blocks H256 (pad m))"

definition hex_digit :: "nat \<Rightarrow> nat" where
  "hex_digit n = (if n < 10 then 48 + n else 87 + n)"

definition hex_byte :: "nat \<Rightarrow> pystr" where
  "hex_byte b = [hex_digit (b div 16), hex_digit (b mod 16)]"

definition hexdigest :: "bytes \<Rightarrow> pystr" where
  "hexdigest d = concat (map hex_byte d)"

subsection \<open>\<open>hash_job_text\<close>\<close>

text \<open>
  \<^verbatim>\<open>base = f"{company}_{text}"\<close>, then
  \<^verbatim>\<open>hashlib.sha256(base.encode("utf-8")).hexdigest()[:16]\<close>.
\<close>

definition hash_job_text :: "pystr \<Rightarrow> pystr \<Rightarrow> error + pystr" where
  "hash_job_text text company =
     (case encode_utf8 (company @ ustr ''_'' @ text) of
        Inl e \<Rightarrow> Inl e
      | Inr bs \<Rightarrow> Inr (take 16 (hexdigest (sha256 bs))))"

section \<open>Python's \<open>re\<close> on the patterns of the parser\<close>

definition is_space :: "nat \<Rightarrow> bool" where
  "is_space c =
     ((9 \<le> c \<and> c \<le> 13) \<or> (28 \<le> c \<and> c \<le> 32) \<or> c = 0x85 \<or> c = 0xA0 \<or> c = 0x1680
      \<or> (0x2000 \<le> c \<and> c \<le> 0x200A) \<or> c = 0x2028 \<or> c = 0x2029 \<or> c = 0x202F
      \<or> c = 0x205F \<or> c = 0x3000)"

definition ascii_alnum :: "nat \<Rightarrow> bool" where
  "ascii_alnum c = ((48 \<le> c \<and> c \<le> 57) \<or> (65 \<le> c \<and> c \<le> 90) \<or> (97 \<le> c \<and> c \<le> 122))"

definition is_word :: "(nat \<Rightarrow> bool) \<Rightarrow> nat \<Rightarrow> bool" where
  "is_word alnum c = (if c < 128 then ascii_alnum c \<or> c = 95 else alnum c)"

definition lower_simple :: "nat \<Rightarrow> nat" where
  "lower_simple c =
     (if 65 \<le> c \<and> c \<le> 90 then c + 32
      else if c = 0x130 then 0x69
      else if c = 0x212A then 0x6B
      else c)"

definition ci_chr :: "nat \<Rightarrow> nat \<Rightarrow> bool" where
  "ci_chr p c =
     (lower_simple c = lower_simple p
      \<or> (lower_simple p = 0x69 \<and> c = 0x131)
      \<or> (lower_simple p = 0x73 \<and> c = 0x17F))"

datatype rx =
    Eps
  | Chr "nat \<Rightarrow> bool"
  | Rep "nat \<Rightarrow> bool" nat "nat option"
  | Seq rx rx
  | Alt rx rx
  | Grp nat rx
  | WordB "nat \<Rightarrow> bool"

type_synonym caps = "(nat \<times> pystr) list"
type_synonym mstate = "nat option \<times> pystr \<times> caps"

definition class_of :: "(nat \<Rightarrow> bool) \<Rightarrow> nat option \<Rightarrow> bool" where
  "class_of W x = (case x of None \<Rightarrow> False | Some c \<Rightarrow> W c)"

definition first_char :: "pystr \<Rightarrow> nat option" where
  "first_char s = (case s of [] \<Rightarrow> None | c # cs \<Rightarrow> Some c)"

definition run_bound :: "(nat \<Rightarrow> bool) \<Rightarrow> nat option \<Rightarrow> pystr \<Rightarrow> nat" where
  "run_bound P hi s =
     (case hi of None \<Rightarrow> length (takeWhile P s) | Some h \<Rightarrow> min h (length (takeWhile P s)))"

definition after_run :: "nat option \<Rightarrow> pystr \<Rightarrow> caps \<Rightarrow> nat \<Rightarrow> mstate" where
  "after_run p s g j = (if j = 0 then p else Some (s ! (j - 1)), drop j s, g)"

fun rx_match :: "rx \<Rightarrow> mstate \<Rightarrow> mstate list" where
  "rx_match Eps st = [st]"
| "rx_match (Chr P) (p, [], g) = []"
| "rx_match (Chr P) (p, c # cs, g) = (if P c then [(Some c, cs, g)] else [])"
| "rx_match (Rep P lo hi) (p, s, g) = map (after_run p s g) (rev [lo..<Suc (run_bound P hi s)])"
| "rx_match (Seq a b) st = concat (map (rx_match b) (rx_match a st))"
| "rx_match (Alt a b) st = rx_match a st @ rx_match b st"
| "rx_match (Grp n r) (p, s, g) =
     map (\<lambda>(p', s', g'). (p', s', (n, take (length s - length s') s) # g')) (rx_match r (p, s, g))"
| "rx_match (WordB W) (p, s, g) =
     (if class_of W p \<noteq> class_of W (first_char s) then [(p, s, g)] else [])"

fun rx_search :: "rx \<Rightarrow> nat option \<Rightarrow> pystr \<Rightarrow> caps option" where
  "rx_search r p [] = (case rx_match r (p, [], []) of [] \<Rightarrow> None | (p', s', g) # ms \<Rightarrow> Some g)"
| "rx_search r p (c # cs) =
     (case rx_match r (p, c # cs, []) of
        [] \<Rightarrow> rx_search r (Some c) cs
      | (p', s', g) # ms \<Rightarrow> Some g)"

definition re_search :: "rx \<Rightarrow> pystr \<Rightarrow> caps option" where
  "re_search r s = rx_search r None s"

definition m_group :: "caps \<Rightarrow> nat \<Rightarrow> pystr" where
  "m_group g n = (case map_of g n of None \<Rightarrow> [] | Some t \<Rightarrow> t)"

function rx_sub :: "rx \<Rightarrow> pystr \<Rightarrow> nat option \<Rightarrow> pystr \<Rightarrow> pystr" where
  "rx_sub r repl p [] = (case rx_match r (p, [], []) of [] \<Rightarrow> [] | m # ms \<Rightarrow> repl)"
| "rx_sub r repl p (c # cs) =
     (case rx_match r (p, c # cs, []) of
        [] \<Rightarrow> c # rx_sub r repl (Some c) cs
      | (p', s', g) # ms \<Rightarrow>
          (if length s' \<le> length cs
           then repl @ rx_sub r repl p' s'
           else repl @ c # rx_sub r repl (Some c) cs))"
  by pat_completeness auto
termination
  by (relation "measure (\<lambda>(r, repl, p, s). length s)") auto

definition re_sub :: "rx \<Rightarrow> pystr \<Rightarrow> pystr \<Rightarrow> pystr" where
  "re_sub r repl s = rx_sub r repl None s"

fun seq :: "rx list \<Rightarrow> rx" where
  "seq [] = Eps"
| "seq [r] = r"
| "seq (r # rs) = Seq r (seq rs)"

fun alts :: "rx list \<Rightarrow> rx" where
  "alts [] = Rep (\<lambda>c. False) 1 None"
| "alts [r] = r"
| "alts (r # rs) = Alt r (alts rs)"

definition lit :: "string \<Rightarrow> rx" where
  "lit s = seq (map (\<lambda>x. Chr (\<lambda>c. c = of_char x)) s)"

definition lit_ci :: "string \<Rightarrow> rx" where
  "lit_ci s = seq (map (\<lambda>x. Chr (ci_chr (of_char x))) s)"

definition rx_star :: "(nat \<Rightarrow> bool) \<Rightarrow> rx" where
  "rx_star P = Rep P 0 None"

definition rx_plus :: "(nat \<Rightarrow> bool) \<Rightarrow> rx" where
  "rx_plus P = Rep P 1 None"

definition strip :: "pystr \<Rightarrow> pystr" where
  "strip s = rev (dropWhile is_space (rev (dropWhile is_space s)))"

section \<open>Python values: JSON data and dictionaries\<close>

text \<open>
  What \<open>json.loads\<close> produces and the parser and uploader pass around.  A \<open>dict\<close> is
  an association list in insertion order; \<open>dict_set\<close> is \<open>d[k] = v\<close> (an existing key keeps
  its place, a new key goes to the end).  A float is carried only for its truth value.
\<close>

datatype pyfloat = FNum real | FInf | FNegInf | FNan

datatype json =
    JNull
  | JBool bool
  | JInt int
  | JFloat pyfloat
  | JStr pystr
  | JList "json list"
  | JDict "(pystr \<times> json) list"

type_synonym pydict = "(pystr \<times> json) list"

fun dict_set :: "'k \<Rightarrow> 'v \<Rightarrow> ('k \<times> 'v) list \<Rightarrow> ('k \<times> 'v) list" where
  "dict_set k v [] = [(k, v)]"
| "dict_set k v ((k', v') # d) = (if k' = k then (k, v) # d else (k', v') # dict_set k v d)"

fun dict_literal :: "('k \<times> 'v) list \<Rightarrow> ('k \<times> 'v) list \<Rightarrow> ('k \<times> 'v) list" where
  "dict_literal d [] = d"
| "dict_literal d ((k, v) # items) = dict_literal (dict_set k v d) items"

definition dict_get :: "('k \<times> 'v) list \<Rightarrow> 'k \<Rightarrow> 'v \<Rightarrow> 'v" where
  "dict_get d k dflt = (case map_of d k of None \<Rightarrow> dflt | Some v \<Rightarrow> v)"

definition has_key :: "('k \<times> 'v) list \<Rightarrow> 'k \<Rightarrow> bool" where
  "has_key d k = (map_of d k \<noteq> None)"

text \<open>Python's truth value: \<open>not v\<close> holds of \<open>None\<close>, \<open>False\<close>, zero and empty containers.\<close>

fun falsy :: "json \<Rightarrow> bool" where
  "falsy JNull = True"
| "falsy (JBool b) = (\<not> b)"
| "falsy (JInt i) = (i = 0)"
| "falsy (JFloat f) = (f = FNum 0)"
| "falsy (JStr s) = (s = [])"
| "falsy (JList xs) = (xs = [])"
| "falsy (JDict d) = (d = [])"

section \<open>The parser (\<open>SmartJobParser\<close>)\<close>

subsection \<open>\<open>clean_text\<close>\<close>

text \<open>
  \<open>str.replace(old, new)\<close> for a non-empty \<open>old\<close>: leftmost occurrences, not overlapping.
\<close>

fun str_replace :: "pystr \<Rightarrow> pystr \<Rightarrow> pystr \<Rightarrow> pystr" where
  "str_replace old new [] = []"
| "str_replace old new (c # cs) =
     (if old \<noteq> [] \<and> prefix old (c # cs)
      then new @ str_replace old new (drop (length old - 1) cs)
      else c # str_replace old new cs)"

text \<open>
  The dictionary literal of \<open>clean_text\<close>, as written: seven items, three of them repeating
  a key under its escape.
\<close>

definition replacements :: "(pystr \<times> pystr) list" where
  "replacements =
     dict_literal []
       [([0x2013], ustr ''-''), ([0x2014], ustr ''-''), ([0x2022], [0x2022, 0x20]),
        ([0xA0], ustr '' ''), ([0x2022], [0x2022, 0x20]), ([0x2013], ustr ''-''),
        ([0x2014], ustr ''-'')]"

fun replace_all :: "(pystr \<times> pystr) list \<Rightarrow> pystr \<Rightarrow> pystr" where
  "replace_all [] t = t"
| "replace_all ((old, new) # rs) t = replace_all rs (str_replace old new t)"

text \<open>
  \<^verbatim>\<open>if not text: return ""\<close>; the replacements; \<^verbatim>\<open>re.sub(r"\s+", " ", text)\<close>;
  \<^verbatim>\<open>re.sub(r"\n{2,}", "\n\n", text)\<close>; \<^verbatim>\<open>text.strip()\<close>.  \<open>None\<close> is the absent input.
\<close>

definition clean_text :: "pystr option \<Rightarrow> pystr" where
  "clean_text t =
     (case t of
        None \<Rightarrow> []
      | Some text \<Rightarrow>
          (if text = [] then []
           else strip (re_sub (Rep (\<lambda>c. c = 10) 2 None) [10, 10]
                  (re_sub (rx_plus is_space) (ustr '' '') (replace_all replacements text)))))"

subsection \<open>\<open>detect_format\<close>\<close>

definition not_newline :: "nat \<Rightarrow> bool" where
  "not_newline c = (c \<noteq> 10)"

definition html_patterns :: "rx list" where
  "html_patterns = map lit_ci [''<div'', ''<p'', ''<ul'', ''<li'', ''<br'']"

definition markdown_patterns :: "rx list" where
  "markdown_patterns =
     [seq [rx_plus (\<lambda>c. c = 35), Chr is_space],
      seq [lit ''**'', rx_plus not_newline, lit ''**''],
      seq [lit ''['', rx_plus not_newline, lit '']('', rx_plus not_newline, lit '')'']]"

definition any_search :: "rx list \<Rightarrow> pystr \<Rightarrow> bool" where
  "any_search ps text = list_ex (\<lambda>p. re_search p text \<noteq> None) ps"

definition detect_format :: "pystr \<Rightarrow> pystr" where
  "detect_format text =
     (if any_search html_patterns text then ustr ''html''
      else if any_search markdown_patterns text then ustr ''markdown''
      else ustr ''plain'')"

subsection \<open>\<open>convert_to_markdown\<close>\<close>

text \<open>
  The ten entries of \<open>mapping\<close> in the order written; each key is
  \<^verbatim>\<open>(?i)\b(w1|w2|...)\b\<close>, held as its list of alternatives.  \<open>alnum\<close> is Python's table of
  alphanumeric code points beyond ASCII (it decides \<^verbatim>\<open>\b\<close> there) and \<open>md\<close> is
  \<open>markdownify\<close> with the arguments of the call; both belong to libraries.
\<close>

definition heading_rx :: "(nat \<Rightarrow> bool) \<Rightarrow> string list \<Rightarrow> rx" where
  "heading_rx alnum ws =
     seq [WordB (is_word alnum), Grp 1 (alts (map lit_ci ws)), WordB (is_word alnum)]"

definition mapping :: "(string list \<times> string) list" where
  "mapping =
     [([''job description'', ''overview'', ''summary''], ''## Job Description''),
      ([''responsibilities'', ''duties'', ''tasks''], ''## Responsibilities''),
      ([''qualifications'', ''required skills'', ''requirements''], ''## Qualifications''),
      ([''preferred'', ''nice to have''], ''## Preferred Qualifications''),
      ([''education''], ''## Education''),
      ([''experience''], ''## Experience''),
      ([''salary'', ''compensation'', ''pay''], ''## Compensation''),
      ([''location'', ''work location''], ''## Location''),
      ([''about us'', ''company overview''], ''## About Us''),
      ([''benefits'', ''perks'', ''what we offer''], ''## Benefits'')]"

fun apply_mapping :: "(nat \<Rightarrow> bool) \<Rightarrow> (string list \<times> string) list \<Rightarrow> pystr \<Rightarrow> pystr" where
  "apply_mapping alnum [] t = t"
| "apply_mapping alnum ((ws, rpl) # ms) t =
     apply_mapping alnum ms (re_sub (heading_rx alnum ws) (ustr rpl) t)"

definition convert_to_markdown :: "(pystr \<Rightarrow> pystr) \<Rightarrow> (nat \<Rightarrow> bool) \<Rightarrow> pystr \<Rightarrow> pystr" where
  "convert_to_markdown md alnum text =
     strip (apply_mapping alnum mapping
              (if detect_format text = ustr ''html'' then md text else text))"

subsection \<open>\<open>heuristic_extract\<close>\<close>

definition digit_or_comma :: "nat \<Rightarrow> bool" where
  "digit_or_comma c = ((48 \<le> c \<and> c \<le> 57) \<or> c = 44)"

definition upper_AZ :: "nat \<Rightarrow> bool" where
  "upper_AZ c = (65 \<le> c \<and> c \<le> 90)"

definition lower_az :: "nat \<Rightarrow> bool" where
  "lower_az c = (97 \<le> c \<and> c \<le> 122)"

definition salary_rx :: rx where
  "salary_rx =
     seq [Chr (\<lambda>c. c = 36), Grp 1 (rx_plus digit_or_comma), rx_star is_space,
          Chr (\<lambda>c. c = 45), rx_star is_space, Rep (\<lambda>c. c = 36) 0 (Some 1),
          Grp 2 (rx_plus digit_or_comma)]"

definition loc_rx :: rx where
  "loc_rx =
     Grp 1 (seq [Chr upper_AZ, rx_plus lower_az, Chr (\<lambda>c. c = 44), rx_star is_space,
                 Rep upper_AZ 2 (Some 2)])"

definition visa_rx :: rx where
  "visa_rx =
     Grp 1 (alts (map lit_ci [''no sponsorship'', ''not offer sponsorship'', ''OPT'', ''CPT'']))"

definition remote_rx :: rx where
  "remote_rx = Grp 1 (alts (map lit_ci [''remote'', ''hybrid'', ''on-site'']))"

text \<open>
  \<open>int(s)\<close> on what reaches it here, a string of ASCII digits or the empty string (the
  pattern admits digits and commas only, and the commas are removed first).  \<open>int("")\<close>
  raises \<open>ValueError\<close>, and so does a string of more than 4300 digits, leading zeros
  counted: the default of \<open>sys.int_max_str_digits\<close>, which nothing in the program changes.
\<close>

definition py_int :: "pystr \<Rightarrow> error + int" where
  "py_int s =
     (if s \<noteq> [] \<and> list_all (\<lambda>c. 48 \<le> c \<and> c \<le> 57) s \<and> length s \<le> 4300
      then Inr (foldl (\<lambda>a c. 10 * a + int (c - 48)) 0 s)
      else Inl ValueError)"

text \<open>
  \<open>str.capitalize()\<close> on what the remote pattern can match: ASCII letters, the hyphen and
  the three code points that match \<open>i\<close> or \<open>s\<close> without being ASCII.
\<close>

definition lower_full :: "nat \<Rightarrow> pystr" where
  "lower_full c =
     (if 65 \<le> c \<and> c \<le> 90 then [c + 32] else if c = 0x130 then [0x69, 0x307] else [c])"

definition capitalize :: "pystr \<Rightarrow> pystr" where
  "capitalize s =
     (case s of
        [] \<Rightarrow> []
      | c # cs \<Rightarrow> (if 97 \<le> c \<and> c \<le> 122 then c - 32 else c) # concat (map lower_full cs))"

definition salary_step :: "pystr \<Rightarrow> pydict \<Rightarrow> error + pydict" where
  "salary_step text info =
     (case re_search salary_rx text of
        None \<Rightarrow> Inr info
      | Some salary \<Rightarrow>
          (case py_int (str_replace (ustr '','') [] (m_group salary 1)) of
             Inl e \<Rightarrow> Inl e
           | Inr lo \<Rightarrow>
               (case py_int (str_replace (ustr '','') [] (m_group salary 2)) of
                  Inl e \<Rightarrow> Inl e
                | Inr hi \<Rightarrow>
                    Inr (dict_set (ustr ''currency'') (JStr (ustr ''USD''))
                          (dict_set (ustr ''salary_max'') (JInt hi)
                            (dict_set (ustr ''salary_min'') (JInt lo) info))))))"

definition loc_step :: "pystr \<Rightarrow> pydict \<Rightarrow> pydict" where
  "loc_step text info =
     (case re_search loc_rx text of
        None \<Rightarrow> info
      | Some loc \<Rightarrow> dict_set (ustr ''location'') (JStr (m_group loc 1)) info)"

definition visa_step :: "pystr \<Rightarrow> pydict \<Rightarrow> pydict" where
  "visa_step text info =
     dict_set (ustr ''visa_sponsorship'') (JBool (re_search visa_rx text = None)) info"

definition remote_step :: "pystr \<Rightarrow> pydict \<Rightarrow> pydict" where
  "remote_step text info =
     (case re_search remote_rx text of
        None \<Rightarrow> info
      | Some remote \<Rightarrow>
          dict_set (ustr ''remote_hybrid'') (JStr (capitalize (m_group remote 1))) info)"

definition heuristic_extract :: "pystr \<Rightarrow> error + pydict" where
  "heuristic_extract text =
     (case salary_step text [] of
        Inl e \<Rightarrow> Inl e
      | Inr info \<Rightarrow> Inr (remote_step text (visa_step text (loc_step text info))))"

subsection \<open>\<open>parse_with_gpt5\<close>\<close>

text \<open>
  The chat client is outside the repository: a call takes the state of the outside world,
  the model name and the two messages, and either raises or returns the content of the
  first choice (\<open>None\<close> when the reply carries none).  \<open>loads\<close> is \<open>json.loads\<close> and
  \<open>dumps\<close> is \<open>json.dumps\<close> with \<open>indent=2\<close>.
\<close>

type_synonym 'w client = "'w \<Rightarrow> pystr \<Rightarrow> pystr \<Rightarrow> pystr \<Rightarrow> (error + pystr option) \<times> 'w"

definition schema :: json where
  "schema =
     JDict
      [(ustr ''position_title'', JStr (ustr ''string'')),
       (ustr ''company'', JStr (ustr ''string'')),
       (ustr ''location'',
          JDict [(ustr ''regions'', JList [JStr (ustr ''string'')]),
                 (ustr ''remote_hybrid'', JStr (ustr ''string''))]),
       (ustr ''salary'',
          JDict [(ustr ''min'', JStr (ustr ''number'')), (ustr ''max'', JStr (ustr ''number'')),
                 (ustr ''currency'', JStr (ustr ''string''))]),
       (ustr ''employment_type'', JStr (ustr ''string'')),
       (ustr ''responsibilities'', JList [JStr (ustr ''string'')]),
       (ustr ''required_qualifications'',
          JDict [(ustr ''education'', JStr (ustr ''string'')),
                 (ustr ''experience'', JStr (ustr ''string'')),
                 (ustr ''core_skills'', JList [JStr (ustr ''string'')]),
                 (ustr ''technical_tools'', JList [JStr (ustr ''string'')]),
                 (ustr ''soft_skills'', JList [JStr (ustr ''string'')])]),
       (ustr ''preferred_qualifications'',
          JDict [(ustr ''skills'', JList [JStr (ustr ''string'')]),
                 (ustr ''experience'', JStr (ustr ''string''))]),
       (ustr ''application_deadline'', JStr (ustr ''string'')),
       (ustr ''start_date'', JStr (ustr ''string'')),
       (ustr ''visa_sponsorship'', JStr (ustr ''boolean'')),
       (ustr ''relocation_assistance'', JStr (ustr ''boolean'')),
       (ustr ''industry_keywords'', JList [JStr (ustr ''string'')])]"

definition system_msg :: "(json \<Rightarrow> pystr) \<Rightarrow> pystr" where
  "system_msg dumps =
     ustr ''You are a precise AI parser. Extract structured job information ''
     @ ustr ''and return a single valid JSON matching this schema:'' @ [10]
     @ dumps schema"

definition user_msg :: "(json \<Rightarrow> pystr) \<Rightarrow> pystr \<Rightarrow> pydict \<Rightarrow> pystr" where
  "user_msg dumps markdown_text heuristics =
     [10] @ ustr ''Heuristic pre-extracted info:'' @ [10] @ dumps (JDict heuristics) @ [10, 10]
     @ ustr ''Job Description (Markdown):'' @ [10] @ markdown_text @ [10]"

text \<open>
  One pass of the loop body.  \<open>None\<close> is every way to reach \<open>continue\<close>: the call raised,
  the content was \<open>None\<close> (so \<open>.strip()\<close> raised), the stripped content was empty, or
  \<open>json.loads\<close> raised; all are caught by \<^verbatim>\<open>except Exception\<close>.
\<close>

definition attempt ::
  "'w client \<Rightarrow> (pystr \<Rightarrow> error + json) \<Rightarrow> pystr \<Rightarrow> pystr \<Rightarrow> pystr \<Rightarrow> 'w \<Rightarrow> json option \<times> 'w"
where
  "attempt client loads sys usr model w =
     (case client w model sys usr of
        (Inl e, w') \<Rightarrow> (None, w')
      | (Inr None, w') \<Rightarrow> (None, w')
      | (Inr (Some content), w') \<Rightarrow>
          (if strip content = [] then (None, w')
           else (case loads (strip content) of
                   Inl e \<Rightarrow> (None, w')
                 | Inr parsed \<Rightarrow> (Some parsed, w'))))"

text \<open>
  The loop over the models; the second component lists the models called, in order.
  After the last model has failed the function returns \<open>{}\<close>.
\<close>

fun try_models ::
  "'w client \<Rightarrow> (pystr \<Rightarrow> error + json) \<Rightarrow> pystr \<Rightarrow> pystr \<Rightarrow> pystr list \<Rightarrow> pystr list \<Rightarrow> 'w
     \<Rightarrow> json \<times> pystr list \<times> 'w"
where
  "try_models client loads sys usr [] called w = (JDict [], called, w)"
| "try_models client loads sys usr (model # models) called w =
     (case attempt client loads sys usr model w of
        (Some parsed, w') \<Rightarrow> (parsed, called @ [model], w')
      | (None, w') \<Rightarrow> try_models client loads sys usr models (called @ [model]) w')"

definition parse_with_gpt5 ::
  "'w client \<Rightarrow> (pystr \<Rightarrow> error + json) \<Rightarrow> (json \<Rightarrow> pystr) \<Rightarrow> pystr \<Rightarrow> pydict \<Rightarrow> 'w
     \<Rightarrow> json \<times> pystr list \<times> 'w"
where
  "parse_with_gpt5 client loads dumps markdown_text heuristics w =
     try_models client loads (system_msg dumps) (user_msg dumps markdown_text heuristics)
       [ustr ''gpt-5'', ustr ''gpt-4o''] [] w"

subsection \<open>\<open>run\<close> and its merge step\<close>

text \<open>
  \<^verbatim>\<open>for k, v in heuristics.items(): if k not in parsed or not parsed[k]: parsed[k] = v\<close>.
  On a result that is no dictionary the test or the assignment raises \<open>TypeError\<close>.
\<close>

fun merge :: "pydict \<Rightarrow> json \<Rightarrow> error + json" where
  "merge [] parsed = Inr parsed"
| "merge ((k, v) # hs) (JDict d) =
     merge hs (JDict (if \<not> has_key d k \<or> falsy (dict_get d k JNull) then dict_set k v d else d))"
| "merge ((k, v) # hs) parsed = Inl TypeError"

definition run ::
  "(pystr \<Rightarrow> pystr) \<Rightarrow> (nat \<Rightarrow> bool) \<Rightarrow> 'w client \<Rightarrow> (pystr \<Rightarrow> error + json) \<Rightarrow> (json \<Rightarrow> pystr)
     \<Rightarrow> pystr option \<Rightarrow> 'w \<Rightarrow> (error + json \<times> pystr) \<times> 'w"
where
  "run md alnum client loads dumps jd_text w =
     (case heuristic_extract (clean_text jd_text) of
        Inl e \<Rightarrow> (Inl e, w)
      | Inr heuristics \<Rightarrow>
          (case parse_with_gpt5 client loads dumps
                  (convert_to_markdown md alnum (clean_text jd_text)) heuristics w of
             (parsed, called, w') \<Rightarrow>
               (case merge heuristics parsed of
                  Inl e \<Rightarrow> (Inl e, w')
                | Inr merged \<Rightarrow>
                    (Inr (merged, convert_to_markdown md alnum (clean_text jd_text)), w'))))"

section \<open>Closed forms used in the proofs about \<open>clean_text\<close>\<close>

text \<open>
  What \<^verbatim>\<open>re.sub\<close> with a pattern \<open>c+\<close> computes: every maximal run of characters of the class
  becomes one copy of the replacement.
\<close>

function collapse :: "(nat \<Rightarrow> bool) \<Rightarrow> pystr \<Rightarrow> pystr \<Rightarrow> pystr" where
  "collapse P repl [] = []"
| "collapse P repl (c # cs) =
     (if P c then repl @ collapse P repl (dropWhile P cs) else c # collapse P repl cs)"
  by pat_completeness auto
termination
  by (relation "measure (\<lambda>(P, repl, s). length s)")
     (auto simp: length_dropWhile_le le_imp_less_Suc)

text \<open>What the four replacements of \<open>clean_text\<close> do to one character.\<close>

definition fold_char :: "nat \<Rightarrow> pystr" where
  "fold_char c =
     (if c = 0x2013 \<or> c = 0x2014 then [0x2D]
      else if c = 0x2022 then [0x2022, 0x20]
      else if c = 0xA0 then [0x20]
      else [c])"

definition fold_text :: "pystr \<Rightarrow> pystr" where
  "fold_text t = concat (map fold_char t)"

text \<open>
  Python's \<open>s.split()\<close> and \<open>" ".join(ws)\<close>: the words of a text, that is its maximal runs of
  characters that are not white space, and the words put together with single spaces.
\<close>

function split_ws :: "pystr \<Rightarrow> pystr list" where
  "split_ws [] = []"
| "split_ws (c # cs) =
     (if is_space c then split_ws cs
      else (c # takeWhile (\<lambda>x. \<not> is_space x) cs) # split_ws (dropWhile (\<lambda>x. \<not> is_space x) cs))"
  by pat_completeness auto
termination
  by (relation "measure length") (auto simp: length_dropWhile_le le_imp_less_Suc)

fun join_sp :: "pystr list \<Rightarrow> pystr" where
  "join_sp [] = []"
| "join_sp [w] = w"
| "join_sp (w # v # ws) = w @ 0x20 # join_sp (v # ws)"

text \<open>Every bullet of the text has a white-space character right after it.\<close>

fun bullets_spaced :: "pystr \<Rightarrow> bool" where
  "bullets_spaced [] = True"
| "bullets_spaced [c] = (c \<noteq> 0x2022)"
| "bullets_spaced (c # d # s) = ((c = 0x2022 \<longrightarrow> is_space d) \<and> bullets_spaced (d # s))"

text \<open>Python's \<open>h in s\<close> on strings: \<open>h\<close> occurs in \<open>s\<close> as a contiguous part.\<close>

fun contains :: "pystr \<Rightarrow> pystr \<Rightarrow> bool" where
  "contains h [] = (h = [])"
| "contains h (c # cs) = (prefix h (c # cs) \<or> contains h cs)"

section \<open>Notions used in the proofs about \<open>convert_to_markdown\<close>\<close>

text \<open>No match of the pattern can have the character \<open>h\<close> in it.\<close>

fun avoids :: "rx \<Rightarrow> nat \<Rightarrow> bool" where
  "avoids Eps h = True"
| "avoids (Chr P) h = (\<not> P h)"
| "avoids (Rep P lo hi) h = (\<not> P h)"
| "avoids (Seq a b) h = (avoids a h \<and> avoids b h)"
| "avoids (Alt a b) h = (avoids a h \<and> avoids b h)"
| "avoids (Grp n r) h = avoids r h"
| "avoids (WordB W) h = True"

text \<open>
  A substitution with the pattern copies an occurrence of the second heading unchanged,
  whatever comes before and after it.
\<close>

definition keeps_heading :: "rx \<Rightarrow> bool" where
  "keeps_heading r =
     (\<forall>repl p B. rx_sub r repl p (ustr ''## Responsibilities'' @ B)
        = ustr ''## Responsibilities'' @ rx_sub r repl (Some 115) B)"

section \<open>Stand-ins for the outside world\<close>

text \<open>
  Small instances of the collaborators the model takes as arguments; the examples below
  run the model on them.
\<close>

definition down_client :: "nat client" where
  "down_client w model sys usr = (Inl ClientError, Suc w)"

definition fallback_client :: "nat client" where
  "fallback_client w model sys usr =
     (if model = ustr ''gpt-5'' then Inr (Some (ustr ''not json''))
      else Inr (Some (ustr '' {'' @ [34] @ ustr ''company'' @ [34] @ ustr '': 1} '')),
      Suc w)"

definition silent_client :: "nat client" where
  "silent_client w model sys usr =
     (if model = ustr ''gpt-5'' then Inr None else Inr (Some (ustr ''  '')), Suc w)"

text \<open>A \<open>json.loads\<close> that knows two documents, \<^verbatim>\<open>{}\<close> and \<^verbatim>\<open>{"company": 1}\<close>.\<close>

definition toy_loads :: "pystr \<Rightarrow> error + json" where
  "toy_loads s =
     (if s = ustr ''{}'' then Inr (JDict [])
      else if s = ustr ''{'' @ [34] @ ustr ''company'' @ [34] @ ustr '': 1}''
      then Inr (JDict [(ustr ''company'', JInt 1)])
      else Inl ValueError)"

chapter \<open>Properties\<close>

section \<open>Facts about the fingerprint\<close>

lemma encode_utf8_append:
  "encode_utf8 (xs @ ys) =
     (case encode_utf8 xs of
        Inl e \<Rightarrow> Inl e
      | Inr a \<Rightarrow> (case encode_utf8 ys of Inl e \<Rightarrow> Inl e | Inr b \<Rightarrow> Inr (a @ b)))"
  by (induction xs) (auto split: sum.splits)

lemma utf8_char_total: "scalar_value c \<Longrightarrow> \<exists>bs. utf8_char c = Inr bs"
  by (auto simp: utf8_char_def scalar_value_def)

lemma utf8_char_fails: "\<not> scalar_value c \<Longrightarrow> utf8_char c = Inl UnicodeEncodeError"
  by (auto simp: utf8_char_def scalar_value_def)

lemma encode_utf8_total: "encodable s \<Longrightarrow> \<exists>bs. encode_utf8 s = Inr bs"
proof (induction s)
  case Nil
  show ?case by simp
next
  case (Cons c cs)
  from Cons.prems have "scalar_value c" and "encodable cs"
    by (simp_all add: encodable_def)
  with Cons.IH utf8_char_total [of c] show ?case
    by auto
qed

lemma encode_utf8_fails: "\<not> encodable s \<Longrightarrow> encode_utf8 s = Inl UnicodeEncodeError"
proof (induction s)
  case Nil
  then show ?case by (simp add: encodable_def)
next
  case (Cons c cs)
  show ?case
  proof (cases "scalar_value c")
    case True
    with Cons.prems have "\<not> encodable cs" by (simp add: encodable_def)
    with Cons.IH utf8_char_total [OF True] show ?thesis by auto
  next
    case False
    then show ?thesis by (simp add: utf8_char_fails)
  qed
qed

lemma length_hex_byte: "length (hex_byte b) = 2"
  by (simp add: hex_byte_def)

lemma length_hexdigest: "length (hexdigest d) = 2 * length d"
  by (induction d) (simp_all add: hexdigest_def length_hex_byte)

lemma length_state_bytes: "length (state_bytes s) = 32"
  by (induction s rule: state_bytes.induct) (simp add: word_bytes_def)

lemma length_sha256: "length (sha256 m) = 32"
  by (simp add: sha256_def length_state_bytes)

lemma length_fingerprint: "length (take 16 (hexdigest (sha256 bs))) = 16"
  by (simp add: length_hexdigest length_sha256)

lemma encodable_ustr: "encodable (ustr s)"
proof -
  have "scalar_value (of_char c)" for c :: char
  proof -
    have "(of_char c :: nat) mod 256 < 256" by (rule mod_less_divisor) simp
    then have "(of_char c :: nat) < 256" by simp
    then show ?thesis unfolding scalar_value_def by linarith
  qed
  then show ?thesis
    by (simp add: encodable_def ustr_def list_all_iff)
qed

lemma encodable_append: "encodable (xs @ ys) = (encodable xs \<and> encodable ys)"
  by (simp add: encodable_def)

lemma replicate_numeral: "replicate (numeral v) x = x # replicate (numeral v - 1) x"
  by (simp add: numeral_eq_Suc)

lemmas sha_defs = rotr_def bsig0_def bsig1_def ssig0_def ssig1_def Ch_def Maj_def add32_def
  not32_def sha256_def pad_def be64_def schedule_def compress_def K256_def H256_def
  word_bytes_def replicate_numeral

lemmas hex_defs = hexdigest_def hex_byte_def hex_digit_def

text \<open>The test vector of FIPS 180-4 for the message \<open>abc\<close>.\<close>

lemma sha256_abc:
  "hexdigest (sha256 [97, 98, 99]) =
     ustr ''ba7816bf8f01cfea414140de5dae2223b00361a396177a9cb410ff61f20015ad''"
proof -
  have "sha256 [97, 98, 99] =
      [186, 120, 22, 191, 143, 1, 207, 234, 65, 65, 64, 222, 93, 174, 34, 35, 176, 3, 97, 163,
       150, 23, 122, 156, 180, 16, 255, 97, 242, 0, 21, 173]"
    by (simp add: sha_defs)
  then show ?thesis
    by (simp add: hex_defs ustr_def)
qed

lemma sha256_Acme_X:
  "sha256 [65, 99, 109, 101, 95, 88] =
     [88, 10, 15, 204, 171, 95, 154, 23, 178, 199, 145, 208, 144, 126, 115, 60, 174, 171, 92,
      234, 238, 30, 75, 175, 148, 166, 45, 227, 139, 20, 107, 32]"
  by (simp add: sha_defs)

lemma sha256_Acme2_X:
  "sha256 [65, 99, 109, 101, 50, 95, 88] =
     [101, 7, 141, 144, 226, 178, 17, 47, 212, 176, 172, 199, 146, 253, 158, 38, 164, 156, 235,
      117, 123, 42, 73, 214, 106, 156, 36, 231, 139, 140, 158, 148]"
  by (simp add: sha_defs)

lemma hash_Acme_X: "hash_job_text (ustr ''X'') (ustr ''Acme'') = Inr (ustr ''580a0fccab5f9a17'')"
proof -
  have "encode_utf8 (ustr ''Acme'' @ ustr ''_'' @ ustr ''X'') = Inr [65, 99, 109, 101, 95, 88]"
    by (simp add: ustr_def utf8_char_def)
  then show ?thesis
    by (simp add: hash_job_text_def sha256_Acme_X hex_defs) (simp add: ustr_def)
qed

lemma hash_Acme2_X:
  "hash_job_text (ustr ''X'') (ustr ''Acme2'') = Inr (ustr ''65078d90e2b2112f'')"
proof -
  have "encode_utf8 (ustr ''Acme2'' @ ustr ''_'' @ ustr ''X'') = Inr [65, 99, 109, 101, 50, 95, 88]"
    by (simp add: ustr_def utf8_char_def)
  then show ?thesis
    by (simp add: hash_job_text_def sha256_Acme2_X hex_defs) (simp add: ustr_def)
qed

lemma hash_job_text_Inr:
  assumes "encodable (company @ text)"
  shows "\<exists>h. hash_job_text text company = Inr h \<and> length h = 16"
proof -
  from assms have "encodable (company @ ustr ''_'' @ text)"
    by (simp add: encodable_append encodable_ustr)
  then obtain bs where "encode_utf8 (company @ ustr ''_'' @ text) = Inr bs"
    using encode_utf8_total by blast
  then show ?thesis
    using length_fingerprint [of bs] by (simp add: hash_job_text_def)
qed

lemma hash_job_text_Inl:
  assumes "\<not> encodable (company @ text)"
  shows "hash_job_text text company = Inl UnicodeEncodeError"
proof -
  from assms have "\<not> encodable (company @ ustr ''_'' @ text)"
    by (simp add: encodable_append)
  then show ?thesis
    by (simp add: hash_job_text_def encode_utf8_fails)
qed

text \<open>
  C2.  On a company and a text without surrogate code points \<open>hash_job_text\<close> returns a
  string of 16 characters; it is a function of its arguments, so a second call returns the
  same string.  With a surrogate code point in either argument the encoding step raises
  \<open>UnicodeEncodeError\<close>.  The fingerprints of \<open>X\<close> under the companies \<open>Acme\<close> and \<open>Acme2\<close> are
  \<open>580a0fccab5f9a17\<close> and \<open>65078d90e2b2112f\<close>, which differ.
\<close>

theorem hash_job_text_fixed_length:
  "(encodable (company @ text) \<longrightarrow>
      (\<exists>h. hash_job_text text company = Inr h \<and> length h = 16))
   \<and> (\<not> encodable (company @ text) \<longrightarrow>
        hash_job_text text company = Inl UnicodeEncodeError)
   \<and> hash_job_text (ustr ''X'') (ustr ''Acme'') = Inr (ustr ''580a0fccab5f9a17'')
   \<and> hash_job_text (ustr ''X'') (ustr ''Acme2'') = Inr (ustr ''65078d90e2b2112f'')
   \<and> hash_job_text (ustr ''X'') (ustr ''Acme'') \<noteq> hash_job_text (ustr ''X'') (ustr ''Acme2'')"
proof -
  have "ustr ''580a0fccab5f9a17'' \<noteq> ustr ''65078d90e2b2112f''"
    by (simp add: ustr_def)
  then show ?thesis
    using hash_job_text_Inr [of company "text"] hash_job_text_Inl [of company "text"]
    by (simp add: hash_Acme_X hash_Acme2_X)
qed

theorem hash_job_text_fixed_length_witness:
  "encodable (ustr ''Acme'' @ ustr ''X'')
   \<and> (\<exists>h. hash_job_text (ustr ''X'') (ustr ''Acme'') = Inr h \<and> length h = 16)
   \<and> \<not> encodable (ustr ''Acme'' @ [0xD800])
   \<and> hash_job_text [0xD800] (ustr ''Acme'') = Inl UnicodeEncodeError"
proof -
  have a: "encodable (ustr ''Acme'' @ ustr ''X'')"
    by (simp add: encodable_append encodable_ustr)
  have b: "\<not> encodable (ustr ''Acme'' @ [0xD800])"
    by (simp add: encodable_def scalar_value_def)
  show ?thesis
    using a b hash_job_text_fixed_length [of "ustr ''Acme''" "ustr ''X''"]
      hash_job_text_fixed_length [of "ustr ''Acme''" "[0xD800]"]
    by blast
qed

theorem hash_job_text_surrogate_counterexample:
  "\<not> (\<exists>h. hash_job_text [0xD800] (ustr ''Acme'') = Inr h \<and> length h = 16)"
proof -
  have "\<not> encodable (ustr ''Acme'' @ [0xD800])"
    by (simp add: encodable_def scalar_value_def)
  then have "hash_job_text [0xD800] (ustr ''Acme'') = Inl UnicodeEncodeError"
    by (rule hash_job_text_Inl)
  then show ?thesis by simp
qed

text \<open>
  C10.  The company \<open>A\<close> with the text \<open>B_C\<close> and the company \<open>A_B\<close> with the text \<open>C\<close> are
  distinct pairs with the same fingerprint: both are hashed as \<open>A_B_C\<close>.
\<close>

theorem fingerprint_collision:
  "hash_job_text (ustr ''B_C'') (ustr ''A'') = hash_job_text (ustr ''C'') (ustr ''A_B'')
   \<and> (ustr ''A'', ustr ''B_C'') \<noteq> (ustr ''A_B'', ustr ''C'')
   \<and> (\<exists>h. hash_job_text (ustr ''B_C'') (ustr ''A'') = Inr h \<and> length h = 16)"
proof -
  have base: "ustr ''A'' @ ustr ''_'' @ ustr ''B_C'' = ustr ''A_B'' @ ustr ''_'' @ ustr ''C''"
    by (simp add: ustr_def)
  have eq: "hash_job_text (ustr ''B_C'') (ustr ''A'') = hash_job_text (ustr ''C'') (ustr ''A_B'')"
    unfolding hash_job_text_def base ..
  have ne: "(ustr ''A'', ustr ''B_C'') \<noteq> (ustr ''A_B'', ustr ''C'')"
    by (simp add: ustr_def)
  have "encodable (ustr ''A'' @ ustr ''B_C'')"
    by (simp add: encodable_append encodable_ustr)
  then have "\<exists>h. hash_job_text (ustr ''B_C'') (ustr ''A'') = Inr h \<and> length h = 16"
    by (rule hash_job_text_Inr)
  with eq ne show ?thesis by blast
qed

section \<open>Evaluation rules\<close>

lemmas rx_eval = re_search_def re_sub_def lit_def lit_ci_def rx_star_def rx_plus_def ci_chr_def
  lower_simple_def is_space_def class_of_def first_char_def run_bound_def after_run_def
  ustr_def m_group_def strip_def

lemmas parser_eval = clean_text_def replacements_def detect_format_def any_search_def
  html_patterns_def markdown_patterns_def not_newline_def heading_rx_def mapping_def
  convert_to_markdown_def is_word_def ascii_alnum_def digit_or_comma_def upper_AZ_def
  lower_az_def salary_rx_def loc_rx_def visa_rx_def remote_rx_def py_int_def lower_full_def
  capitalize_def salary_step_def loc_step_def visa_step_def remote_step_def
  heuristic_extract_def

section \<open>The fallback of \<open>parse_with_gpt5\<close>\<close>

text \<open>
  What one pass of the loop returns, read off the reply of the client: nothing when the call
  raised, the reply has no content, the content is empty once stripped or \<open>json.loads\<close>
  raises on it; otherwise the value \<open>json.loads\<close> gives for the stripped content.
\<close>

lemma attempt_fails:
  assumes "client w model sys usr = (r, w')"
    and "r = Inl e \<or> r = Inr None
         \<or> (r = Inr (Some c) \<and> (strip c = [] \<or> loads (strip c) = Inl e))"
  shows "attempt client loads sys usr model w = (None, w')"
  using assms by (auto simp: attempt_def)

lemma attempt_succeeds:
  assumes "client w model sys usr = (Inr (Some c), w')"
    and "strip c \<noteq> []" and "loads (strip c) = Inr v"
  shows "attempt client loads sys usr model w = (Some v, w')"
  using assms by (simp add: attempt_def)

text \<open>When the reply to \<open>gpt-5\<close> parses, its value is returned and \<open>gpt-4o\<close> is never called.\<close>

lemma parse_with_gpt5_primary:
  assumes "client w (ustr ''gpt-5'') (system_msg dumps) (user_msg dumps mdt h)
             = (Inr (Some c), w1)"
    and "strip c \<noteq> []" and "loads (strip c) = Inr v"
  shows "parse_with_gpt5 client loads dumps mdt h w = (v, [ustr ''gpt-5''], w1)"
proof -
  from assms have "attempt client loads (system_msg dumps) (user_msg dumps mdt h)
      (ustr ''gpt-5'') w = (Some v, w1)"
    by (rule attempt_succeeds)
  then show ?thesis by (simp add: parse_with_gpt5_def)
qed

text \<open>
  C9.  Let the call for \<open>gpt-5\<close> answer \<open>r1\<close> and fail: it raised, or the reply has no content,
  or the content is empty once stripped, or \<open>json.loads\<close> raises on it.  Let the call for
  \<open>gpt-4o\<close>, made in the state the first call left, answer \<open>r2\<close>.  If \<open>r2\<close> fails in one of the
  same ways, \<open>parse_with_gpt5\<close> returns the empty dictionary, no exception.  If \<open>r2\<close> has a
  content that is not empty once stripped and that \<open>json.loads\<close> turns into \<open>v\<close>, it is \<open>v\<close>
  that \<open>parse_with_gpt5\<close> returns.  In both cases the models called are \<open>gpt-5\<close> and \<open>gpt-4o\<close>,
  once each, and the outside world is left as the second call left it.
\<close>

theorem parse_with_gpt5_fallback:
  assumes "client w (ustr ''gpt-5'') (system_msg dumps) (user_msg dumps mdt h) = (r1, w1)"
    and "client w1 (ustr ''gpt-4o'') (system_msg dumps) (user_msg dumps mdt h) = (r2, w2)"
    and "r1 = Inl e1 \<or> r1 = Inr None
         \<or> (r1 = Inr (Some c1) \<and> (strip c1 = [] \<or> loads (strip c1) = Inl e1))"
  shows "(r2 = Inl e2 \<or> r2 = Inr None
          \<or> (r2 = Inr (Some c2) \<and> (strip c2 = [] \<or> loads (strip c2) = Inl e2))
          \<longrightarrow> parse_with_gpt5 client loads dumps mdt h w
                = (JDict [], [ustr ''gpt-5'', ustr ''gpt-4o''], w2))
       \<and> (r2 = Inr (Some c2) \<and> strip c2 \<noteq> [] \<and> loads (strip c2) = Inr v
          \<longrightarrow> parse_with_gpt5 client loads dumps mdt h w
                = (v, [ustr ''gpt-5'', ustr ''gpt-4o''], w2))"
proof -
  let ?sys = "system_msg dumps" and ?usr = "user_msg dumps mdt h"
  have first: "attempt client loads ?sys ?usr (ustr ''gpt-5'') w = (None, w1)"
    using assms(1) assms(3) by (rule attempt_fails)
  have both: "parse_with_gpt5 client loads dumps mdt h w
      = (JDict [], [ustr ''gpt-5'', ustr ''gpt-4o''], w2)"
    if "r2 = Inl e2 \<or> r2 = Inr None
        \<or> (r2 = Inr (Some c2) \<and> (strip c2 = [] \<or> loads (strip c2) = Inl e2))"
  proof -
    have "attempt client loads ?sys ?usr (ustr ''gpt-4o'') w1 = (None, w2)"
      using assms(2) that by (rule attempt_fails)
    with first show ?thesis by (simp add: parse_with_gpt5_def)
  qed
  have second: "parse_with_gpt5 client loads dumps mdt h w
      = (v, [ustr ''gpt-5'', ustr ''gpt-4o''], w2)"
    if "r2 = Inr (Some c2) \<and> strip c2 \<noteq> [] \<and> loads (strip c2) = Inr v"
  proof -
    from assms(2) that
    have "client w1 (ustr ''gpt-4o'') ?sys ?usr = (Inr (Some c2), w2)"
      and "strip c2 \<noteq> []" and "loads (strip c2) = Inr v"
      by simp_all
    then have "attempt client loads ?sys ?usr (ustr ''gpt-4o'') w1 = (Some v, w2)"
      by (rule attempt_succeeds)
    with first show ?thesis by (simp add: parse_with_gpt5_def)
  qed
  from both second show ?thesis by blast
qed

text \<open>
  Three runs.  A client that always raises: \<open>{}\<close>.  A client whose first reply is no JSON
  and whose second is \<^verbatim>\<open> {"company": 1} \<close>: that dictionary.  A client whose first reply has
  no content and whose second is blank: \<open>{}\<close>.
\<close>

theorem parse_with_gpt5_fallback_witness:
  "parse_with_gpt5 down_client toy_loads (\<lambda>v. []) [] [] 0
     = (JDict [], [ustr ''gpt-5'', ustr ''gpt-4o''], 2)
   \<and> parse_with_gpt5 fallback_client toy_loads (\<lambda>v. []) [] [] 0
     = (JDict [(ustr ''company'', JInt 1)], [ustr ''gpt-5'', ustr ''gpt-4o''], 2)
   \<and> parse_with_gpt5 silent_client toy_loads (\<lambda>v. []) [] [] 0
     = (JDict [], [ustr ''gpt-5'', ustr ''gpt-4o''], 2)"
proof -
  let ?sys = "system_msg (\<lambda>v. [])" and ?usr = "user_msg (\<lambda>v. []) [] []"
  let ?doc = "ustr '' {'' @ [34] @ ustr ''company'' @ [34] @ ustr '': 1} ''"
  have d1: "down_client 0 (ustr ''gpt-5'') ?sys ?usr = (Inl ClientError, 1)"
    and d2: "down_client 1 (ustr ''gpt-4o'') ?sys ?usr = (Inl ClientError, 2)"
    by (simp_all add: down_client_def)
  have f1: "fallback_client 0 (ustr ''gpt-5'') ?sys ?usr = (Inr (Some (ustr ''not json'')), 1)"
    and f2: "fallback_client 1 (ustr ''gpt-4o'') ?sys ?usr = (Inr (Some ?doc), 2)"
    by (simp_all add: fallback_client_def ustr_def)
  have s1: "silent_client 0 (ustr ''gpt-5'') ?sys ?usr = (Inr None, 1)"
    and s2: "silent_client 1 (ustr ''gpt-4o'') ?sys ?usr = (Inr (Some (ustr ''  '')), 2)"
    by (simp_all add: silent_client_def ustr_def)
  have l1: "toy_loads (strip (ustr ''not json'')) = Inl ValueError"
    by (simp add: toy_loads_def rx_eval)
  have l2: "strip ?doc \<noteq> []"
    and l3: "toy_loads (strip ?doc) = Inr (JDict [(ustr ''company'', JInt 1)])"
    by (simp_all add: toy_loads_def rx_eval)
  have l4: "strip (ustr ''  '') = []"
    by (simp add: rx_eval)
  note t = parse_with_gpt5_fallback [where loads = toy_loads and dumps = "\<lambda>v. []"
      and mdt = "[]" and h = "[]" and w = 0 and ?w1.0 = 1 and ?w2.0 = 2]
  have a: "parse_with_gpt5 down_client toy_loads (\<lambda>v. []) [] [] 0
      = (JDict [], [ustr ''gpt-5'', ustr ''gpt-4o''], 2)"
    using d1 d2
      t [where client = down_client and ?r1.0 = "Inl ClientError" and ?r2.0 = "Inl ClientError"
          and ?e1.0 = ClientError and ?e2.0 = ClientError]
    by simp
  have b: "parse_with_gpt5 fallback_client toy_loads (\<lambda>v. []) [] [] 0
      = (JDict [(ustr ''company'', JInt 1)], [ustr ''gpt-5'', ustr ''gpt-4o''], 2)"
    using f1 f2 l1 l2 l3
      t [where client = fallback_client and ?r1.0 = "Inr (Some (ustr ''not json''))"
          and ?r2.0 = "Inr (Some ?doc)" and ?e1.0 = ValueError and ?c1.0 = "ustr ''not json''"
          and ?c2.0 = ?doc and v = "JDict [(ustr ''company'', JInt 1)]"]
    by simp
  have c: "parse_with_gpt5 silent_client toy_loads (\<lambda>v. []) [] [] 0
      = (JDict [], [ustr ''gpt-5'', ustr ''gpt-4o''], 2)"
    using s1 s2 l4
      t [where client = silent_client and ?r1.0 = "Inr None"
          and ?r2.0 = "Inr (Some (ustr ''  ''))" and ?c2.0 = "ustr ''  ''"]
    by simp
  from a b c show ?thesis by blast
qed

section \<open>The merge step\<close>

lemma map_of_dict_set: "map_of (dict_set k v d) = (map_of d)(k \<mapsto> v)"
  by (induction d) auto

lemma merge_dict:
  assumes "distinct (map fst h)"
  shows "\<exists>d'. merge h (JDict d) = Inr (JDict d') \<and>
           (\<forall>k. map_of d' k =
              (case map_of h k of
                 None \<Rightarrow> map_of d k
               | Some v \<Rightarrow>
                   if \<not> has_key d k \<or> falsy (dict_get d k JNull) then Some v else map_of d k))"
  using assms
proof (induction h arbitrary: d)
  case Nil
  show ?case by simp
next
  case (Cons kv hs)
  obtain k0 v0 where kv: "kv = (k0, v0)" by (cases kv)
  define d1 where
    "d1 = (if \<not> has_key d k0 \<or> falsy (dict_get d k0 JNull) then dict_set k0 v0 d else d)"
  from Cons.prems kv have dist: "distinct (map fst hs)" and fresh: "k0 \<notin> fst ` set hs"
    by auto
  from Cons.IH [OF dist, of d1] obtain d' where
    m: "merge hs (JDict d1) = Inr (JDict d')" and
    l: "\<And>k. map_of d' k =
          (case map_of hs k of
             None \<Rightarrow> map_of d1 k
           | Some v \<Rightarrow>
               if \<not> has_key d1 k \<or> falsy (dict_get d1 k JNull) then Some v else map_of d1 k)"
    by blast
  have none: "map_of hs k0 = None"
    using fresh by (simp add: map_of_eq_None_iff)
  have other: "map_of d1 k = map_of d k" if "k \<noteq> k0" for k
    using that by (simp add: d1_def map_of_dict_set)
  have same: "map_of d1 k0 =
      (if \<not> has_key d k0 \<or> falsy (dict_get d k0 JNull) then Some v0 else map_of d k0)"
    by (simp add: d1_def map_of_dict_set)
  have "merge (kv # hs) (JDict d) = Inr (JDict d')"
    using m by (simp add: kv d1_def)
  moreover have "map_of d' k =
      (case map_of (kv # hs) k of
         None \<Rightarrow> map_of d k
       | Some v \<Rightarrow> if \<not> has_key d k \<or> falsy (dict_get d k JNull) then Some v else map_of d k)"
    for k
  proof (cases "k = k0")
    case True
    then show ?thesis using l [of k0] none same by (simp add: kv)
  next
    case False
    then have o: "map_of d1 k = map_of d k" by (rule other)
    then have hk: "has_key d1 k = has_key d k"
      and dg: "dict_get d1 k JNull = dict_get d k JNull"
      by (simp_all add: has_key_def dict_get_def)
    from False show ?thesis
      unfolding l [of k] o hk dg by (simp add: kv)
  qed
  ultimately show ?case by blast
qed

text \<open>
  C3.  For a heuristic map \<open>h\<close> (a dictionary: its keys are distinct) and an inference
  result that is a dictionary \<open>d\<close>, the merge returns a dictionary that holds the heuristic
  value at every heuristic key that is absent from \<open>d\<close> or falsy there, and what \<open>d\<close> holds
  at every other key.
\<close>

theorem merge_rule:
  "distinct (map fst h) \<Longrightarrow>
     \<exists>d'. merge h (JDict d) = Inr (JDict d') \<and>
       (\<forall>k v. map_of h k = Some v \<longrightarrow> \<not> has_key d k \<or> falsy (dict_get d k JNull)
              \<longrightarrow> map_of d' k = Some v) \<and>
       (\<forall>k v. map_of h k = Some v \<longrightarrow> has_key d k \<longrightarrow> \<not> falsy (dict_get d k JNull)
              \<longrightarrow> map_of d' k = map_of d k) \<and>
       (\<forall>k. map_of h k = None \<longrightarrow> map_of d' k = map_of d k)"
proof -
  assume "distinct (map fst h)"
  from merge_dict [OF this, of d] obtain d' where
    m: "merge h (JDict d) = Inr (JDict d')" and
    l: "\<And>k. map_of d' k =
          (case map_of h k of
             None \<Rightarrow> map_of d k
           | Some v \<Rightarrow>
               if \<not> has_key d k \<or> falsy (dict_get d k JNull) then Some v else map_of d k)"
    by blast
  have "\<forall>k v. map_of h k = Some v \<longrightarrow> \<not> has_key d k \<or> falsy (dict_get d k JNull)
          \<longrightarrow> map_of d' k = Some v"
    using l by auto
  moreover have "\<forall>k v. map_of h k = Some v \<longrightarrow> has_key d k \<longrightarrow> \<not> falsy (dict_get d k JNull)
          \<longrightarrow> map_of d' k = map_of d k"
    using l by auto
  moreover have "\<forall>k. map_of h k = None \<longrightarrow> map_of d' k = map_of d k"
    using l by auto
  ultimately show ?thesis using m by blast
qed

theorem merge_rule_witness:
  "distinct (map fst [(ustr ''visa_sponsorship'', JBool True)])
   \<and> merge [(ustr ''visa_sponsorship'', JBool True)]
        (JDict [(ustr ''responsibilities'', JList [])])
      = Inr (JDict [(ustr ''responsibilities'', JList []),
                    (ustr ''visa_sponsorship'', JBool True)])
   \<and> (\<exists>d'. merge [(ustr ''visa_sponsorship'', JBool True)]
              (JDict [(ustr ''responsibilities'', JList [])]) = Inr (JDict d')
          \<and> map_of d' (ustr ''visa_sponsorship'') = Some (JBool True)
          \<and> map_of d' (ustr ''responsibilities'') = Some (JList []))"
proof -
  have d: "distinct (map fst [(ustr ''visa_sponsorship'', JBool True)])"
    by simp
  have e: "merge [(ustr ''visa_sponsorship'', JBool True)]
        (JDict [(ustr ''responsibilities'', JList [])])
      = Inr (JDict [(ustr ''responsibilities'', JList []),
                    (ustr ''visa_sponsorship'', JBool True)])"
    by (simp add: has_key_def dict_get_def ustr_def)
  from merge_rule [OF d, of "[(ustr ''responsibilities'', JList [])]"] e
  show ?thesis
    by (simp add: ustr_def)
qed

section \<open>Format detection\<close>

text \<open>
  C6.  A text in which one of the HTML patterns is found is classified \<open>html\<close>, whether or
  not a Markdown pattern is found too; the Markdown patterns decide only when no HTML
  pattern is found, and \<open>plain\<close> is returned when neither kind is.
\<close>

theorem detect_format_precedence:
  "(any_search html_patterns text \<longrightarrow> detect_format text = ustr ''html'')
   \<and> (\<not> any_search html_patterns text \<longrightarrow> any_search markdown_patterns text
        \<longrightarrow> detect_format text = ustr ''markdown'')
   \<and> (\<not> any_search html_patterns text \<longrightarrow> \<not> any_search markdown_patterns text
        \<longrightarrow> detect_format text = ustr ''plain'')"
  by (simp add: detect_format_def)

theorem detect_format_precedence_witness:
  "any_search html_patterns (ustr ''# Title <DIV>see **bold**'')
   \<and> any_search markdown_patterns (ustr ''# Title <DIV>see **bold**'')
   \<and> detect_format (ustr ''# Title <DIV>see **bold**'') = ustr ''html''
   \<and> \<not> any_search html_patterns (ustr ''see **bold**'')
   \<and> any_search markdown_patterns (ustr ''see **bold**'')
   \<and> detect_format (ustr ''see **bold**'') = ustr ''markdown''
   \<and> \<not> any_search html_patterns (ustr ''a < b'')
   \<and> \<not> any_search markdown_patterns (ustr ''a < b'')
   \<and> detect_format (ustr ''a < b'') = ustr ''plain''"
proof -
  have h1: "any_search html_patterns (ustr ''# Title <DIV>see **bold**'')"
    by (simp add: rx_eval parser_eval)
  have m1: "any_search markdown_patterns (ustr ''# Title <DIV>see **bold**'')"
    by (simp add: rx_eval parser_eval)
  have h2: "\<not> any_search html_patterns (ustr ''see **bold**'')"
    by (simp add: rx_eval parser_eval)
  have m2: "any_search markdown_patterns (ustr ''see **bold**'')"
    by (simp add: rx_eval parser_eval)
  have h3: "\<not> any_search html_patterns (ustr ''a < b'')"
    by (simp add: rx_eval parser_eval)
  have m3: "\<not> any_search markdown_patterns (ustr ''a < b'')"
    by (simp add: rx_eval parser_eval)
  show ?thesis
    using h1 m1 h2 m2 h3 m3
      detect_format_precedence [of "ustr ''# Title <DIV>see **bold**''"]
      detect_format_precedence [of "ustr ''see **bold**''"]
      detect_format_precedence [of "ustr ''a < b''"]
    by blast
qed

section \<open>Heuristic extraction\<close>

text \<open>
  C4.  On the text \<open>$,-1\<close> the salary pattern matches with the first group \<open>,\<close>; removing the
  commas leaves the empty string and \<open>int("")\<close> raises \<open>ValueError\<close>, which nothing in
  \<open>heuristic_extract\<close> catches.
\<close>

theorem heuristic_extract_raises:
  "re_search salary_rx (ustr ''$,-1'') = Some [(2, ustr ''1''), (1, ustr '','')]
   \<and> heuristic_extract (ustr ''$,-1'') = Inl ValueError"
  by (simp add: rx_eval parser_eval)

section \<open>The regular expressions of \<open>clean_text\<close>\<close>

lemma rx_match_Rep_none:
  assumes "takeWhile P s = []" and "0 < lo"
  shows "rx_match (Rep P lo hi) (p, s, g) = []"
  using assms by (cases hi) (simp_all add: run_bound_def)

lemma rx_match_plus_hit:
  assumes "P c"
  shows "\<exists>p' ms. rx_match (Rep P 1 None) (p, c # cs, g) = (p', dropWhile P cs, g) # ms"
proof -
  define k where "k = length (takeWhile P cs)"
  have rb: "run_bound P None (c # cs) = Suc k"
    using assms by (simp add: run_bound_def k_def)
  have "rev [1..<Suc (Suc k)] = Suc k # rev [1..<Suc k]"
    by simp
  moreover have "drop (Suc k) (c # cs) = dropWhile P cs"
    by (simp add: k_def dropWhile_eq_drop)
  ultimately show ?thesis
    by (simp add: rb after_run_def)
qed

lemma rx_sub_plus: "rx_sub (Rep P 1 None) repl p s = collapse P repl s"
proof (induction P repl s arbitrary: p rule: collapse.induct)
  case (1 P repl)
  show ?case by (simp add: run_bound_def)
next
  case (2 P repl c cs)
  show ?case
  proof (cases "P c")
    case True
    from True rx_match_plus_hit [of P c p cs "[]"] obtain p' ms where
      m: "rx_match (Rep P 1 None) (p, c # cs, []) = (p', dropWhile P cs, []) # ms"
      by blast
    have le: "length (dropWhile P cs) \<le> length cs"
      by (rule length_dropWhile_le)
    show ?thesis
      using True m le "2.IH"(1) [OF True, of p'] by simp
  next
    case False
    then have "rx_match (Rep P 1 None) (p, c # cs, []) = []"
      by (intro rx_match_Rep_none) simp_all
    with False "2.IH"(2) [OF False, of "Some c"] show ?thesis
      by simp
  qed
qed

lemma rx_sub_newlines_id:
  "10 \<notin> set s \<Longrightarrow> rx_sub (Rep (\<lambda>c. c = 10) 2 None) repl p s = s"
proof (induction s arbitrary: p)
  case Nil
  show ?case by (simp add: run_bound_def)
next
  case (Cons c cs)
  then have "c \<noteq> 10" and "10 \<notin> set cs" by auto
  then have "rx_match (Rep (\<lambda>c. c = 10) 2 None) (p, c # cs, []) = []"
    by (intro rx_match_Rep_none) simp_all
  with Cons.IH [OF \<open>10 \<notin> set cs\<close>] show ?case by simp
qed

section \<open>The replacements of \<open>clean_text\<close>\<close>

lemma str_replace_char:
  "str_replace [k] new s = concat (map (\<lambda>c. if c = k then new else [c]) s)"
  by (induction s) auto

lemma replacements_eq:
  "replacements =
     [([0x2013], [0x2D]), ([0x2014], [0x2D]), ([0x2022], [0x2022, 0x20]), ([0xA0], [0x20])]"
  by (simp add: replacements_def ustr_def)

lemma concat_map_concat_map:
  "concat (map g (concat (map h t))) = concat (map (\<lambda>c. concat (map g (h c))) t)"
  by (induction t) simp_all

lemma replace_all_replacements: "replace_all replacements t = fold_text t"
proof -
  have "replace_all replacements t =
      concat (map (\<lambda>c. concat (map (\<lambda>c. if c = 0xA0 then [0x20] else [c])
        (concat (map (\<lambda>c. if c = 0x2022 then [0x2022, 0x20] else [c])
          (concat (map (\<lambda>c. if c = 0x2014 then [0x2D] else [c])
            (if c = 0x2013 then [0x2D] else [c]))))))) t)"
    by (simp add: replacements_eq str_replace_char concat_map_concat_map)
  also have "\<dots> = concat (map fold_char t)"
    by (rule arg_cong [where f = concat], rule map_cong) (simp_all add: fold_char_def)
  finally show ?thesis by (simp add: fold_text_def)
qed

section \<open>Collapsing white space\<close>

lemma collapse_spaces_only:
  "\<forall>c \<in> set (collapse is_space [0x20] s). is_space c \<longrightarrow> c = 0x20"
  by (induction is_space "[0x20::nat]" s rule: collapse.induct)
     (auto dest: set_dropWhileD)

lemma newline_is_space: "is_space 10"
  by (simp add: is_space_def)

lemma collapse_no_newline: "10 \<notin> set (collapse is_space [0x20] s)"
  using collapse_spaces_only [of s] newline_is_space by auto

lemma clean_text_closed:
  "clean_text (Some text) = strip (collapse is_space [0x20] (fold_text text))"
proof (cases "text = []")
  case True
  then show ?thesis by (simp add: clean_text_def strip_def fold_text_def)
next
  case False
  have sp: "ustr '' '' = [0x20]"
    by (simp add: ustr_def)
  have a: "re_sub (rx_plus is_space) (ustr '' '') x = collapse is_space [0x20] x" for x
    unfolding re_sub_def rx_plus_def rx_sub_plus sp ..
  have b: "re_sub (Rep (\<lambda>c. c = 10) 2 None) [10, 10] (collapse is_space [0x20] x)
      = collapse is_space [0x20] x" for x
    unfolding re_sub_def by (rule rx_sub_newlines_id) (rule collapse_no_newline)
  from False show ?thesis
    by (simp add: clean_text_def a b replace_all_replacements)
qed


section \<open>Stripping a collapsed text gives its words\<close>

lemma collapse_prefix:
  "\<forall>x \<in> set a. \<not> P x \<Longrightarrow> collapse P r (a @ b) = a @ collapse P r b"
  by (induction a) simp_all

lemma dropWhile_Cons_not: "dropWhile P xs = y # ys \<Longrightarrow> \<not> P y"
  by (simp add: dropWhile_eq_Cons_conv)

lemma lstrip_collapse:
  "dropWhile is_space (collapse is_space [0x20] s) = collapse is_space [0x20] (dropWhile is_space s)"
proof (cases s)
  case Nil
  then show ?thesis by simp
next
  case (Cons c cs)
  show ?thesis
  proof (cases "is_space c")
    case True
    have sp: "is_space 0x20" by (simp add: is_space_def)
    have "dropWhile is_space (collapse is_space [0x20] (dropWhile is_space cs))
        = collapse is_space [0x20] (dropWhile is_space cs)"
    proof (cases "dropWhile is_space cs")
      case Nil
      show ?thesis unfolding Nil by simp
    next
      case (Cons d ds)
      then have "\<not> is_space d" by (rule dropWhile_Cons_not)
      then show ?thesis unfolding Cons by simp
    qed
    with True sp Cons show ?thesis by simp
  next
    case False
    with Cons show ?thesis by simp
  qed
qed

lemma split_ws_dropWhile: "split_ws (dropWhile is_space s) = split_ws s"
  by (induction s) simp_all

lemma rstrip_append_keep:
  assumes "rev (dropWhile is_space (rev b)) \<noteq> []"
  shows "rev (dropWhile is_space (rev (a @ b))) = a @ rev (dropWhile is_space (rev b))"
proof -
  from assms have "dropWhile is_space (rev b) \<noteq> []" by simp
  then obtain x where "x \<in> set (rev b)" and "\<not> is_space x"
    by (auto simp: dropWhile_eq_Nil_conv)
  then have "dropWhile is_space (rev b @ rev a) = dropWhile is_space (rev b) @ rev a"
    by (rule dropWhile_append1)
  then show ?thesis by simp
qed

lemma rstrip_word:
  assumes "w \<noteq> []" and "\<forall>x \<in> set w. \<not> is_space x"
  shows "rev (dropWhile is_space (rev w)) = w"
proof -
  from assms obtain x xs where r: "rev w = x # xs" by (cases "rev w") auto
  then have "x \<in> set w" by (metis list.set_intros(1) set_rev)
  with assms have "\<not> is_space x" by blast
  with r have "dropWhile is_space (rev w) = rev w" by simp
  then show ?thesis by simp
qed

lemma join_sp_Cons: "ws \<noteq> [] \<Longrightarrow> join_sp (w # ws) = w @ 0x20 # join_sp ws"
  by (cases ws) simp_all

lemma join_sp_nonempty: "w \<noteq> [] \<Longrightarrow> join_sp (w # ws) \<noteq> []"
  by (cases ws) simp_all

lemma rstrip_collapse:
  "s = [] \<or> \<not> is_space (hd s) \<Longrightarrow>
     rev (dropWhile is_space (rev (collapse is_space [0x20] s))) = join_sp (split_ws s)"
proof (induction "length s" arbitrary: s rule: less_induct)
  case less
  show ?case
  proof (cases s)
    case Nil
    then show ?thesis by simp
  next
    case (Cons c cs)
    with less.prems have nc: "\<not> is_space c" by simp
    define w where "w = c # takeWhile (\<lambda>x. \<not> is_space x) cs"
    define r where "r = dropWhile (\<lambda>x. \<not> is_space x) cs"
    have s: "s = w @ r" by (simp add: Cons w_def r_def)
    have wne: "w \<noteq> []" and wns: "\<forall>x \<in> set w. \<not> is_space x"
      using nc by (auto simp: w_def dest: set_takeWhileD)
    have col: "collapse is_space [0x20] s = w @ collapse is_space [0x20] r"
      unfolding s using wns by (rule collapse_prefix)
    have sw: "split_ws s = w # split_ws r"
      using nc by (simp add: Cons w_def r_def)
    show ?thesis
    proof (cases r)
      case Nil
      with col sw rstrip_word [OF wne wns] show ?thesis by simp
    next
      case (Cons d ds)
      then have "\<not> \<not> is_space d" unfolding r_def by (rule dropWhile_Cons_not)
      then have d: "is_space d" by simp
      define s2 where "s2 = dropWhile is_space ds"
      have colr: "collapse is_space [0x20] r = 0x20 # collapse is_space [0x20] s2"
        using d by (simp add: Cons s2_def)
      have swr: "split_ws r = split_ws s2"
        using d by (simp add: Cons s2_def split_ws_dropWhile)
      have "length s2 \<le> length ds" unfolding s2_def by (rule length_dropWhile_le)
      then have len: "length s2 < length s" by (simp add: s Cons)
      have start: "s2 = [] \<or> \<not> is_space (hd s2)"
      proof (cases s2)
        case Nil
        then show ?thesis by simp
      next
        case (Cons e es)
        then have "\<not> is_space e" unfolding s2_def by (rule dropWhile_Cons_not)
        with Cons show ?thesis by simp
      qed
      have ih: "rev (dropWhile is_space (rev (collapse is_space [0x20] s2))) = join_sp (split_ws s2)"
        using len start by (rule less.hyps)
      show ?thesis
      proof (cases s2)
        case Nil
        have sp: "is_space 0x20" by (simp add: is_space_def)
        have "rev (dropWhile is_space (rev (w @ [0x20]))) = rev (dropWhile is_space (rev w))"
          using sp by simp
        with Nil col colr sw swr rstrip_word [OF wne wns] show ?thesis by simp
      next
        case (Cons e es)
        with start have ne: "\<not> is_space e" by simp
        then obtain w2 rest where sp2: "split_ws s2 = w2 # rest" and w2: "w2 \<noteq> []"
          by (simp add: Cons)
        have jne: "join_sp (split_ws s2) \<noteq> []"
          unfolding sp2 using w2 by (rule join_sp_nonempty)
        have keep: "rev (dropWhile is_space (rev (0x20 # collapse is_space [0x20] s2)))
            = 0x20 # rev (dropWhile is_space (rev (collapse is_space [0x20] s2)))"
          using rstrip_append_keep [of "collapse is_space [0x20] s2" "[0x20]"] jne ih by simp
        then have keep_ne: "rev (dropWhile is_space (rev (0x20 # collapse is_space [0x20] s2))) \<noteq> []"
          by simp
        have "rev (dropWhile is_space (rev (collapse is_space [0x20] s)))
            = w @ rev (dropWhile is_space (rev (0x20 # collapse is_space [0x20] s2)))"
          unfolding col colr using keep_ne by (rule rstrip_append_keep)
        also have "\<dots> = w @ 0x20 # join_sp (split_ws s2)"
          by (simp only: keep ih)
        also have "\<dots> = join_sp (w # split_ws s2)"
          using sp2 by (simp add: join_sp_Cons)
        finally show ?thesis by (simp add: sw swr)
      qed
    qed
  qed
qed

lemma strip_collapse: "strip (collapse is_space [0x20] s) = join_sp (split_ws s)"
proof -
  have start: "dropWhile is_space s = [] \<or> \<not> is_space (hd (dropWhile is_space s))"
  proof (cases "dropWhile is_space s")
    case Nil
    then show ?thesis by simp
  next
    case (Cons e es)
    then have "\<not> is_space e" by (rule dropWhile_Cons_not)
    with Cons show ?thesis by simp
  qed
  have "strip (collapse is_space [0x20] s)
      = rev (dropWhile is_space (rev (collapse is_space [0x20] (dropWhile is_space s))))"
    by (simp add: strip_def lstrip_collapse)
  also have "\<dots> = join_sp (split_ws (dropWhile is_space s))"
    using start by (rule rstrip_collapse)
  finally show ?thesis by (simp add: split_ws_dropWhile)
qed

lemma clean_text_words: "clean_text (Some text) = join_sp (split_ws (fold_text text))"
  by (simp add: clean_text_closed strip_collapse)

section \<open>Words\<close>

lemma split_ws_words:
  "\<forall>w \<in> set (split_ws s). w \<noteq> [] \<and> (\<forall>c \<in> set w. \<not> is_space c) \<and> set w \<subseteq> set s"
proof (induction s rule: split_ws.induct)
  case 1
  show ?case by simp
next
  case (2 c cs)
  show ?case
  proof (cases "is_space c")
    case True
    have "set cs \<subseteq> set (c # cs)" by (rule set_subset_Cons)
    with True "2.IH"(1) [OF True] show ?thesis by (simp add: subset_iff)
  next
    case False
    define w0 where "w0 = c # takeWhile (\<lambda>x. \<not> is_space x) cs"
    have tw: "set (takeWhile (\<lambda>x. \<not> is_space x) cs) \<subseteq> set cs"
      by (auto dest: set_takeWhileD)
    have ns: "\<forall>x \<in> set (takeWhile (\<lambda>x. \<not> is_space x) cs). \<not> is_space x"
      by (auto dest: set_takeWhileD)
    have w0: "w0 \<noteq> [] \<and> (\<forall>x \<in> set w0. \<not> is_space x) \<and> set w0 \<subseteq> set (c # cs)"
      using False tw ns by (auto simp: w0_def)
    have dw: "set (dropWhile (\<lambda>x. \<not> is_space x) cs) \<subseteq> set cs"
      by (auto dest: set_dropWhileD)
    note ih = "2.IH"(2) [OF False]
    have rest:
      "\<forall>w \<in> set (split_ws (dropWhile (\<lambda>x. \<not> is_space x) cs)).
         w \<noteq> [] \<and> (\<forall>x \<in> set w. \<not> is_space x) \<and> set w \<subseteq> set (c # cs)"
    proof
      fix w
      assume "w \<in> set (split_ws (dropWhile (\<lambda>x. \<not> is_space x) cs))"
      with ih have a: "w \<noteq> []" and b: "\<forall>x \<in> set w. \<not> is_space x"
        and c: "set w \<subseteq> set (dropWhile (\<lambda>x. \<not> is_space x) cs)"
        by blast+
      have "set cs \<subseteq> set (c # cs)" by (rule set_subset_Cons)
      with c dw have "set w \<subseteq> set (c # cs)" by blast
      with a b show "w \<noteq> [] \<and> (\<forall>x \<in> set w. \<not> is_space x) \<and> set w \<subseteq> set (c # cs)"
        by simp
    qed
    have eq: "split_ws (c # cs) = w0 # split_ws (dropWhile (\<lambda>x. \<not> is_space x) cs)"
      using False by (simp add: w0_def)
    show ?thesis
      unfolding eq
    proof
      fix w
      assume "w \<in> set (w0 # split_ws (dropWhile (\<lambda>x. \<not> is_space x) cs))"
      then have "w = w0 \<or> w \<in> set (split_ws (dropWhile (\<lambda>x. \<not> is_space x) cs))"
        by simp
      then show "w \<noteq> [] \<and> (\<forall>c \<in> set w. \<not> is_space c) \<and> set w \<subseteq> set (c # cs)"
        using w0 rest by blast
    qed
  qed
qed

lemma concat_split_ws: "concat (split_ws s) = filter (\<lambda>c. \<not> is_space c) s"
proof (induction s rule: split_ws.induct)
  case 1
  show ?case by simp
next
  case (2 c cs)
  show ?case
  proof (cases "is_space c")
    case True
    with "2.IH"(1) show ?thesis by simp
  next
    case False
    have "filter (\<lambda>c. \<not> is_space c) cs
        = filter (\<lambda>c. \<not> is_space c)
            (takeWhile (\<lambda>x. \<not> is_space x) cs @ dropWhile (\<lambda>x. \<not> is_space x) cs)"
      by simp
    also have "\<dots> = takeWhile (\<lambda>x. \<not> is_space x) cs
        @ filter (\<lambda>c. \<not> is_space c) (dropWhile (\<lambda>x. \<not> is_space x) cs)"
      unfolding filter_append by (simp add: filter_id_conv) (auto dest: set_takeWhileD)
    finally show ?thesis
      using False "2.IH"(2) by simp
  qed
qed

lemma takeWhile_stop: "\<not> P y \<Longrightarrow> takeWhile P (xs @ y # ys) = takeWhile P xs"
  by (induction xs) simp_all

lemma dropWhile_stop: "\<not> P y \<Longrightarrow> dropWhile P (xs @ y # ys) = dropWhile P xs @ y # ys"
  by (induction xs) simp_all

lemma split_ws_append_space:
  "is_space x \<Longrightarrow> split_ws (a @ x # b) = split_ws a @ split_ws b"
proof (induction a rule: split_ws.induct)
  case 1
  then show ?case by simp
next
  case (2 c cs)
  show ?case
  proof (cases "is_space c")
    case True
    with "2.IH"(1) "2.prems" show ?thesis by simp
  next
    case False
    from "2.prems" have nx: "\<not> \<not> is_space x" by simp
    have t: "takeWhile (\<lambda>x. \<not> is_space x) (cs @ x # b) = takeWhile (\<lambda>x. \<not> is_space x) cs"
      using nx by (rule takeWhile_stop)
    have d: "dropWhile (\<lambda>x. \<not> is_space x) (cs @ x # b)
        = dropWhile (\<lambda>x. \<not> is_space x) cs @ x # b"
      using nx by (rule dropWhile_stop)
    from False "2.IH"(2) [OF False "2.prems"] show ?thesis
      by (simp add: t d)
  qed
qed

lemma split_ws_join_sp: "split_ws (join_sp X) = concat (map split_ws X)"
proof (induction X rule: join_sp.induct)
  case 1
  show ?case by simp
next
  case (2 w)
  show ?case by simp
next
  case (3 w v ws)
  have sp: "is_space 0x20" by (simp add: is_space_def)
  from 3 show ?case
    by (simp add: split_ws_append_space [OF sp])
qed

lemma split_ws_word:
  assumes "w \<noteq> []" and "\<forall>c \<in> set w. \<not> is_space c"
  shows "split_ws w = [w]"
proof -
  from assms obtain c cs where w: "w = c # cs" by (cases w) auto
  with assms have nc: "\<not> is_space c" and all: "\<forall>x \<in> set cs. \<not> is_space x" by auto
  have tw: "takeWhile (\<lambda>x. \<not> is_space x) cs = cs"
    using all by (simp add: takeWhile_eq_all_conv)
  have dw: "dropWhile (\<lambda>x. \<not> is_space x) cs = []"
    using all by (simp add: dropWhile_eq_Nil_conv)
  show ?thesis unfolding w using nc by (simp add: tw dw)
qed

lemma split_ws_word_space:
  assumes "w \<noteq> []" and "\<forall>c \<in> set w. \<not> is_space c"
  shows "split_ws (w @ [0x20]) = [w]"
proof -
  have sp: "is_space 0x20" by (simp add: is_space_def)
  from split_ws_append_space [OF sp, of w "[]"] split_ws_word [OF assms]
  show ?thesis by simp
qed

section \<open>Folding an already folded text\<close>

lemma fold_text_append: "fold_text (a @ b) = fold_text a @ fold_text b"
  by (simp add: fold_text_def)

lemma fold_text_join_sp: "fold_text (join_sp X) = join_sp (map fold_text X)"
  by (induction X rule: join_sp.induct)
     (simp_all add: fold_text_append, simp_all add: fold_text_def fold_char_def)

lemma fold_text_set: "0x2013 \<notin> set (fold_text t) \<and> 0x2014 \<notin> set (fold_text t)"
  by (induction t) (simp_all add: fold_text_def fold_char_def)

lemma bullets_spaced_Cons: "c \<noteq> 0x2022 \<Longrightarrow> bullets_spaced (c # s) = bullets_spaced s"
  by (cases s) simp_all

lemma bullets_spaced_tail: "bullets_spaced (c # s) \<Longrightarrow> bullets_spaced s"
  by (cases s) simp_all

lemma bullets_spaced_fold_text: "bullets_spaced (fold_text t)"
proof (induction t)
  case Nil
  show ?case by (simp add: fold_text_def)
next
  case (Cons c t)
  have sp: "is_space 0x20" by (simp add: is_space_def)
  have step: "fold_text (c # t) = fold_char c @ fold_text t"
    by (simp add: fold_text_def)
  show ?case
  proof (cases "c = 0x2022")
    case True
    then have "fold_char c = [0x2022, 0x20]" by (simp add: fold_char_def)
    with Cons sp show ?thesis by (simp add: step bullets_spaced_Cons)
  next
    case False
    then have "\<exists>d. fold_char c = [d] \<and> d \<noteq> 0x2022"
      by (simp add: fold_char_def)
    then obtain d where "fold_char c = [d]" and "d \<noteq> 0x2022"
      by blast
    with Cons show ?thesis by (simp add: step bullets_spaced_Cons)
  qed
qed

lemma bullets_spaced_dropWhile: "bullets_spaced s \<Longrightarrow> bullets_spaced (dropWhile P s)"
  by (induction s) (auto dest: bullets_spaced_tail)

lemma bullets_spaced_takeWhile:
  "bullets_spaced s \<Longrightarrow> 0x2022 \<notin> set (butlast (takeWhile (\<lambda>x. \<not> is_space x) s))"
proof (induction s rule: bullets_spaced.induct)
  case 1
  show ?case by simp
next
  case (2 c)
  show ?case by simp
next
  case (3 c d s)
  show ?case
  proof (cases "is_space c")
    case True
    then show ?thesis by simp
  next
    case False
    show ?thesis
    proof (cases "c = 0x2022")
      case True
      with "3.prems" have "is_space d" by simp
      with False show ?thesis by simp
    next
      case c: False
      from "3.prems" have "bullets_spaced (d # s)" by simp
      with "3.IH" have "0x2022 \<notin> set (butlast (takeWhile (\<lambda>x. \<not> is_space x) (d # s)))"
        by simp
      with False c show ?thesis by simp
    qed
  qed
qed

lemma split_ws_bullets:
  "bullets_spaced s \<Longrightarrow> \<forall>w \<in> set (split_ws s). 0x2022 \<notin> set (butlast w)"
proof (induction s rule: split_ws.induct)
  case 1
  show ?case by simp
next
  case (2 c cs)
  from "2.prems" have tl: "bullets_spaced cs" by (rule bullets_spaced_tail)
  show ?case
  proof (cases "is_space c")
    case True
    with "2.IH"(1) tl show ?thesis by simp
  next
    case False
    have w: "c # takeWhile (\<lambda>x. \<not> is_space x) cs = takeWhile (\<lambda>x. \<not> is_space x) (c # cs)"
      using False by simp
    have first: "0x2022 \<notin> set (butlast (c # takeWhile (\<lambda>x. \<not> is_space x) cs))"
      unfolding w using "2.prems" by (rule bullets_spaced_takeWhile)
    have "bullets_spaced (dropWhile (\<lambda>x. \<not> is_space x) cs)"
      using tl by (rule bullets_spaced_dropWhile)
    with "2.IH"(2) [OF False] have
      "\<forall>w \<in> set (split_ws (dropWhile (\<lambda>x. \<not> is_space x) cs)). 0x2022 \<notin> set (butlast w)"
      by simp
    with False first show ?thesis by simp
  qed
qed

lemma fold_text_word:
  assumes "0x2022 \<notin> set (butlast w)" and "0x2013 \<notin> set w" and "0x2014 \<notin> set w"
    and "\<forall>c \<in> set w. \<not> is_space c"
  shows "fold_text w = w \<or> fold_text w = w @ [0x20]"
  using assms
proof (induction w)
  case Nil
  show ?case by (simp add: fold_text_def)
next
  case (Cons c cs)
  have nbsp: "is_space 0xA0" by (simp add: is_space_def)
  with Cons.prems have c: "c \<noteq> 0x2013" "c \<noteq> 0x2014" "c \<noteq> 0xA0" by auto
  have step: "fold_text (c # cs) = fold_char c @ fold_text cs"
    by (simp add: fold_text_def)
  show ?case
  proof (cases "cs = []")
    case True
    with c show ?thesis by (simp add: fold_text_def fold_char_def)
  next
    case False
    with Cons.prems have "c \<noteq> 0x2022" and "0x2022 \<notin> set (butlast cs)" by auto
    with c have fc: "fold_char c = [c]" by (simp add: fold_char_def)
    from Cons.IH \<open>0x2022 \<notin> set (butlast cs)\<close> Cons.prems
    have "fold_text cs = cs \<or> fold_text cs = cs @ [0x20]" by simp
    then show ?thesis by (auto simp: step fc)
  qed
qed

lemma split_ws_fold_word:
  assumes "w \<in> set (split_ws (fold_text t))"
  shows "split_ws (fold_text w) = [w]"
proof -
  from assms split_ws_words [of "fold_text t"] have
    ne: "w \<noteq> []" and ns: "\<forall>c \<in> set w. \<not> is_space c" and sub: "set w \<subseteq> set (fold_text t)"
    by auto
  from sub fold_text_set [of t] have d: "0x2013 \<notin> set w" "0x2014 \<notin> set w" by auto
  from assms split_ws_bullets [OF bullets_spaced_fold_text, of t]
  have b: "0x2022 \<notin> set (butlast w)" by blast
  from fold_text_word [OF b d ns] show ?thesis
    using split_ws_word [OF ne ns] split_ws_word_space [OF ne ns] by auto
qed

lemma split_ws_fold_join:
  "split_ws (fold_text (join_sp (split_ws (fold_text t)))) = split_ws (fold_text t)"
proof -
  have "split_ws (fold_text (join_sp (split_ws (fold_text t))))
      = concat (map (\<lambda>w. split_ws (fold_text w)) (split_ws (fold_text t)))"
    by (simp add: fold_text_join_sp split_ws_join_sp comp_def)
  also have "\<dots> = concat (map (\<lambda>w. [w]) (split_ws (fold_text t)))"
    by (rule arg_cong [where f = concat], rule map_cong) (simp_all add: split_ws_fold_word)
  finally show ?thesis by simp
qed

lemma last_dropWhile_ne: "dropWhile P xs \<noteq> [] \<Longrightarrow> last (dropWhile P xs) = last xs"
  by (induction xs) (auto split: if_splits)

lemma strip_ends:
  "strip x \<noteq> [] \<Longrightarrow> \<not> is_space (hd (strip x)) \<and> \<not> is_space (last (strip x))"
proof -
  assume ne: "strip x \<noteq> []"
  define y where "y = dropWhile is_space x"
  define z where "z = dropWhile is_space (rev y)"
  have s: "strip x = rev z" by (simp add: strip_def y_def z_def)
  with ne have zne: "z \<noteq> []" by simp
  then obtain e es where z: "z = e # es" by (cases z) auto
  then have e: "\<not> is_space e" unfolding z_def by (rule dropWhile_Cons_not)
  have la: "last (strip x) = e" by (simp add: s z)
  from zne have yne: "y \<noteq> []" unfolding z_def by auto
  then obtain f fs where y: "y = f # fs" by (cases y) auto
  then have f: "\<not> is_space f" unfolding y_def by (rule dropWhile_Cons_not)
  have "last z = last (rev y)"
    unfolding z_def using zne [unfolded z_def] by (rule last_dropWhile_ne)
  then have "hd (strip x) = f"
    using zne by (simp add: s hd_rev y)
  with e f la show ?thesis by simp
qed

lemma collapse_set: "set (collapse P repl s) \<subseteq> set repl \<union> set s"
proof (induction P repl s rule: collapse.induct)
  case (1 P repl)
  show ?case by simp
next
  case (2 P repl c cs)
  show ?case
  proof (cases "P c")
    case True
    have "set (dropWhile P cs) \<subseteq> set cs"
      by (auto dest: set_dropWhileD)
    with True "2.IH"(1) [OF True] show ?thesis by auto
  next
    case False
    with "2.IH"(2) [OF False] show ?thesis by auto
  qed
qed

section \<open>Runs of newlines in \<open>clean_text\<close>\<close>

text \<open>
  C5.  On the text \<open>a\<close>, three newlines, \<open>b\<close> the function returns \<open>a b\<close>.  The substitution
  of \<^verbatim>\<open>\n{2,}\<close> by two newlines, applied to that text, gives \<open>a\<close>, two newlines, \<open>b\<close>; inside
  \<open>clean_text\<close> it comes after the substitution of \<^verbatim>\<open>\s+\<close> by a space, which has left no
  newline for it to find.
\<close>

theorem clean_text_flattens_newlines:
  "clean_text (Some (ustr ''a'' @ [10, 10, 10] @ ustr ''b'')) = ustr ''a b''
   \<and> clean_text (Some (ustr ''a'' @ [10, 10, 10] @ ustr ''b'')) \<noteq> ustr ''a'' @ [10, 10] @ ustr ''b''
   \<and> re_sub (Rep (\<lambda>c. c = 10) 2 None) [10, 10] (ustr ''a'' @ [10, 10, 10] @ ustr ''b'')
     = ustr ''a'' @ [10, 10] @ ustr ''b''
   \<and> re_sub (rx_plus is_space) (ustr '' '') (ustr ''a'' @ [10, 10, 10] @ ustr ''b'') = ustr ''a b''"
  by (simp add: rx_eval parser_eval)

section \<open>\<open>clean_text\<close> is idempotent\<close>

text \<open>
  C7.  Cleaning a cleaned text changes nothing: \<open>clean_text(clean_text(t)) = clean_text(t)\<close>
  for every text \<open>t\<close> and for the absent input.
\<close>

theorem clean_text_idempotent: "clean_text (Some (clean_text t)) = clean_text t"
proof (cases t)
  case None
  then show ?thesis by (simp add: clean_text_def)
next
  case (Some s)
  have "clean_text (Some (clean_text (Some s)))
      = join_sp (split_ws (fold_text (join_sp (split_ws (fold_text s)))))"
    by (simp only: clean_text_words)
  also have "\<dots> = join_sp (split_ws (fold_text s))"
    by (simp only: split_ws_fold_join)
  also have "\<dots> = clean_text (Some s)"
    by (simp only: clean_text_words)
  finally show ?thesis by (simp only: Some)
qed

section \<open>Occurrences\<close>

lemma contains_append: "contains h (a @ h @ b)"
proof (induction a)
  case Nil
  show ?case
  proof (cases "h @ b")
    case Nil
    then show ?thesis by simp
  next
    case (Cons c cs)
    have "prefix h (h @ b)" by simp
    with Cons show ?thesis by simp
  qed
next
  case (Cons x a)
  then show ?case by simp
qed

lemma contains_decomp: "contains h s \<Longrightarrow> \<exists>a b. s = a @ h @ b"
proof (induction s)
  case Nil
  then show ?case by simp
next
  case (Cons c cs)
  from Cons.prems have "prefix h (c # cs) \<or> contains h cs" by simp
  then show ?case
  proof
    assume "prefix h (c # cs)"
    then obtain b where "c # cs = h @ b" by (auto simp: prefix_def)
    then have "c # cs = [] @ h @ b" by simp
    then show ?thesis by blast
  next
    assume "contains h cs"
    with Cons.IH obtain a b where "cs = a @ h @ b" by blast
    then have "c # cs = (c # a) @ h @ b" by simp
    then show ?thesis by blast
  qed
qed

lemma dropWhile_keeps:
  "\<not> P h \<Longrightarrow> \<exists>a'. dropWhile P (a @ (h # hs) @ b) = a' @ (h # hs) @ b"
proof (induction a)
  case Nil
  then have "dropWhile P ([] @ (h # hs) @ b) = [] @ (h # hs) @ b" by simp
  then show ?case by blast
next
  case (Cons x a)
  show ?case
  proof (cases "P x")
    case True
    with Cons show ?thesis by simp
  next
    case False
    then have "dropWhile P ((x # a) @ (h # hs) @ b) = (x # a) @ (h # hs) @ b" by simp
    then show ?thesis by blast
  qed
qed

lemma strip_contains:
  assumes "contains H s" and "H \<noteq> []" and "\<not> is_space (hd H)" and "\<not> is_space (last H)"
  shows "contains H (strip s)"
proof -
  from assms(1) obtain a b where s: "s = a @ H @ b" by (blast dest: contains_decomp)
  from assms(2) obtain h hs where H: "H = h # hs" by (cases H) auto
  with assms(3) have h: "\<not> is_space h" by simp
  from h dropWhile_keeps [of is_space h a hs b] obtain a' where
    l: "dropWhile is_space s = a' @ H @ b" by (auto simp: s H)
  from assms(2) obtain k ks where R: "rev H = k # ks" by (cases "rev H") auto
  then have "k = last H" by (metis assms(2) hd_rev list.sel(1))
  with assms(4) have k: "\<not> is_space k" by simp
  from k dropWhile_keeps [of is_space k "rev b" ks "rev a'"] obtain b' where
    "dropWhile is_space (rev b @ (k # ks) @ rev a') = b' @ (k # ks) @ rev a'" by blast
  then have "dropWhile is_space (rev (a' @ H @ b)) = b' @ rev H @ rev a'"
    by (simp add: R)
  then have "strip s = a' @ H @ rev b'"
    by (simp add: strip_def l)
  then show ?thesis by (simp only: contains_append)
qed

section \<open>Matches stay before a character their pattern cannot match\<close>

lemma rx_match_avoids:
  "avoids r h \<Longrightarrow> (p', s', g') \<in> set (rx_match r (p, A @ h # B, g))
     \<Longrightarrow> \<exists>A1 A2. A = A1 @ A2 \<and> s' = A2 @ h # B"
proof (induction r arbitrary: p A g p' s' g')
  case Eps
  then have "A = [] @ A \<and> s' = A @ h # B" by simp
  then show ?case by blast
next
  case (Chr P)
  show ?case
  proof (cases A)
    case Nil
    with Chr show ?thesis by simp
  next
    case (Cons c cs)
    with Chr.prems have "s' = cs @ h # B" by (simp split: if_splits)
    with Cons have "A = [c] @ cs \<and> s' = cs @ h # B" by simp
    then show ?thesis by blast
  qed
next
  case (Rep P lo hi)
  from Rep.prems(1) have nh: "\<not> P h" by simp
  have tw: "takeWhile P (A @ h # B) = takeWhile P A"
    using nh by (rule takeWhile_stop)
  have "run_bound P hi (A @ h # B) \<le> length (takeWhile P A)"
    by (cases hi) (simp_all add: run_bound_def tw)
  also have "\<dots> \<le> length A" by (rule length_takeWhile_le)
  finally have rb: "run_bound P hi (A @ h # B) \<le> length A" .
  from Rep.prems(2) have "(p', s', g') \<in> after_run p (A @ h # B) g ` {lo..<Suc (run_bound P hi (A @ h # B))}"
    by (simp only: rx_match.simps set_map set_rev set_upt)
  then obtain j where j: "j \<in> {lo..<Suc (run_bound P hi (A @ h # B))}"
    and st: "(p', s', g') = after_run p (A @ h # B) g j"
    by (rule imageE)
  from j rb have "j \<le> length A" by simp
  then have "drop j (A @ h # B) = drop j A @ h # B" by simp
  with st have "s' = drop j A @ h # B" by (simp add: after_run_def)
  moreover have "A = take j A @ drop j A" by simp
  ultimately show ?case by blast
next
  case (Seq a b)
  from Seq.prems(1) have aa: "avoids a h" and ab: "avoids b h" by simp_all
  from Seq.prems(2) obtain m where m: "m \<in> set (rx_match a (p, A @ h # B, g))"
    and r: "(p', s', g') \<in> set (rx_match b m)"
    by auto
  obtain p1 s1 g1 where m1: "m = (p1, s1, g1)" by (cases m)
  from Seq.IH(1) [OF aa m [unfolded m1]] obtain A1 A2 where
    A: "A = A1 @ A2" and s1: "s1 = A2 @ h # B" by blast
  from Seq.IH(2) [OF ab r [unfolded m1 s1]] obtain A3 A4 where
    A2: "A2 = A3 @ A4" and s': "s' = A4 @ h # B" by blast
  from A A2 have "A = (A1 @ A3) @ A4" by simp
  with s' show ?case by blast
next
  case (Alt a b)
  from Alt.prems(1) have aa: "avoids a h" and ab: "avoids b h" by simp_all
  from Alt.prems(2) have "(p', s', g') \<in> set (rx_match a (p, A @ h # B, g))
      \<or> (p', s', g') \<in> set (rx_match b (p, A @ h # B, g))"
    by simp
  then show ?case
  proof
    assume "(p', s', g') \<in> set (rx_match a (p, A @ h # B, g))"
    with aa show ?thesis by (rule Alt.IH(1))
  next
    assume "(p', s', g') \<in> set (rx_match b (p, A @ h # B, g))"
    with ab show ?thesis by (rule Alt.IH(2))
  qed
next
  case (Grp n r)
  from Grp.prems(1) have ar: "avoids r h" by simp
  from Grp.prems(2) have
    "(p', s', g') \<in> (\<lambda>(p', s', g'). (p', s', (n, take (length (A @ h # B) - length s') (A @ h # B)) # g'))
        ` set (rx_match r (p, A @ h # B, g))"
    by (simp only: rx_match.simps set_map)
  then obtain m where m: "m \<in> set (rx_match r (p, A @ h # B, g))"
    and e: "(p', s', g') = (\<lambda>(p', s', g'). (p', s', (n, take (length (A @ h # B) - length s') (A @ h # B)) # g')) m"
    by (rule imageE)
  obtain p0 s0 g0 where m0: "m = (p0, s0, g0)" by (cases m)
  from e have s0: "s0 = s'" by (simp add: m0)
  from m have "(p0, s', g0) \<in> set (rx_match r (p, A @ h # B, g))" by (simp only: m0 s0)
  with ar show ?case by (rule Grp.IH)
next
  case (WordB W)
  then have "A = [] @ A \<and> s' = A @ h # B" by (simp split: if_splits)
  then show ?case by blast
qed

lemma rx_sub_barrier:
  assumes "avoids r h"
  shows "\<exists>A' p'. rx_sub r repl p (A @ h # B) = A' @ rx_sub r repl p' (h # B)"
proof (induction "length A" arbitrary: A p rule: less_induct)
  case less
  show ?case
  proof (cases A)
    case Nil
    then have "rx_sub r repl p (A @ h # B) = [] @ rx_sub r repl p (h # B)" by simp
    then show ?thesis by blast
  next
    case (Cons c cs)
    have tail: "\<exists>A' p'. rx_sub r repl (Some c) (cs @ h # B) = A' @ rx_sub r repl p' (h # B)"
      by (rule less.hyps) (simp add: Cons)
    show ?thesis
    proof (cases "rx_match r (p, c # cs @ h # B, [])")
      case Nil
      from tail obtain A' p' where "rx_sub r repl (Some c) (cs @ h # B) = A' @ rx_sub r repl p' (h # B)"
        by blast
      with Nil have "rx_sub r repl p (A @ h # B) = (c # A') @ rx_sub r repl p' (h # B)"
        by (simp add: Cons)
      then show ?thesis by blast
    next
      case (Cons m ms)
      obtain p1 s1 g1 where m: "m = (p1, s1, g1)" by (cases m)
      have "(p1, s1, g1) \<in> set (rx_match r (p, A @ h # B, []))"
        using Cons m \<open>A = c # cs\<close> by simp
      from rx_match_avoids [OF assms this] obtain A1 A2 where
        A: "A = A1 @ A2" and s1: "s1 = A2 @ h # B" by blast
      show ?thesis
      proof (cases "length s1 \<le> length (cs @ h # B)")
        case True
        then have "length A2 < length A" by (simp add: s1 \<open>A = c # cs\<close>)
        from less.hyps [OF this] obtain A' p' where
          "rx_sub r repl p1 (A2 @ h # B) = A' @ rx_sub r repl p' (h # B)" by blast
        with True Cons m have "rx_sub r repl p (A @ h # B) = (repl @ A') @ rx_sub r repl p' (h # B)"
          by (simp add: \<open>A = c # cs\<close> s1)
        then show ?thesis by blast
      next
        case False
        from tail obtain A' p' where
          "rx_sub r repl (Some c) (cs @ h # B) = A' @ rx_sub r repl p' (h # B)" by blast
        with False Cons m have
          "rx_sub r repl p (A @ h # B) = (repl @ c # A') @ rx_sub r repl p' (h # B)"
          by (simp add: \<open>A = c # cs\<close>)
        then show ?thesis by blast
      qed
    qed
  qed
qed

section \<open>A found pattern is replaced\<close>

lemma rx_search_sub:
  "rx_search r p s \<noteq> None \<Longrightarrow> \<exists>a b. rx_sub r repl p s = a @ repl @ b"
proof (induction s arbitrary: p)
  case Nil
  then have "rx_match r (p, [], []) \<noteq> []" by (auto split: list.splits)
  then have "rx_sub r repl p [] = [] @ repl @ []" by (simp split: list.splits)
  then show ?case by blast
next
  case (Cons c cs)
  show ?case
  proof (cases "rx_match r (p, c # cs, [])")
    case Nil
    with Cons.prems have "rx_search r (Some c) cs \<noteq> None" by simp
    from Cons.IH [OF this] obtain a b where "rx_sub r repl (Some c) cs = a @ repl @ b" by blast
    with Nil have "rx_sub r repl p (c # cs) = (c # a) @ repl @ b" by simp
    then show ?thesis by blast
  next
    case (Cons m ms)
    obtain p1 s1 g1 where m: "m = (p1, s1, g1)" by (cases m)
    have "\<exists>b. rx_sub r repl p (c # cs) = [] @ repl @ b"
      using Cons m by simp
    then show ?thesis by blast
  qed
qed

lemma re_search_sub_contains: "re_search r t \<noteq> None \<Longrightarrow> contains repl (re_sub r repl t)"
proof -
  assume "re_search r t \<noteq> None"
  then have "rx_search r None t \<noteq> None" by (simp add: re_search_def)
  from rx_search_sub [OF this] obtain a b where "rx_sub r repl None t = a @ repl @ b" by blast
  then show ?thesis by (simp only: re_sub_def contains_append)
qed

section \<open>The second heading survives the later substitutions\<close>

lemma rx_sub_keeps:
  assumes av: "avoids r 35" and kh: "keeps_heading r"
    and c: "contains (ustr ''## Responsibilities'') t"
  shows "contains (ustr ''## Responsibilities'') (rx_sub r repl p t)"
proof -
  let ?H = "ustr ''## Responsibilities''"
  from c obtain a b where t: "t = a @ ?H @ b" by (blast dest: contains_decomp)
  have H: "?H = 35 # tl ?H" by (simp add: ustr_def)
  then have "t = a @ 35 # (tl ?H @ b)" by (simp add: t)
  with rx_sub_barrier [OF av, of repl p a "tl ?H @ b"] obtain a' p' where
    "rx_sub r repl p t = a' @ rx_sub r repl p' (35 # (tl ?H @ b))" by auto
  also have "35 # (tl ?H @ b) = ?H @ b" using H by simp
  also have "rx_sub r repl p' (?H @ b) = ?H @ rx_sub r repl (Some 115) b"
    using kh by (simp only: keeps_heading_def)
  finally show ?thesis by (simp only: contains_append)
qed

lemma later_patterns:
  "list_all (\<lambda>(ws, rpl). avoids (heading_rx alnum ws) 35 \<and> keeps_heading (heading_rx alnum ws))
     (drop 2 mapping)"
  by (simp add: mapping_def keeps_heading_def heading_rx_def rx_eval is_word_def ascii_alnum_def)

lemma apply_mapping_keeps:
  assumes "list_all (\<lambda>(ws, rpl). avoids (heading_rx alnum ws) 35 \<and> keeps_heading (heading_rx alnum ws)) ms"
    and "contains (ustr ''## Responsibilities'') t"
  shows "contains (ustr ''## Responsibilities'') (apply_mapping alnum ms t)"
  using assms
proof (induction ms arbitrary: t)
  case Nil
  then show ?case by simp
next
  case (Cons m ms)
  obtain ws rpl where m: "m = (ws, rpl)" by (cases m)
  from Cons.prems(1) have av: "avoids (heading_rx alnum ws) 35"
    and kh: "keeps_heading (heading_rx alnum ws)"
    and rest: "list_all (\<lambda>(ws, rpl). avoids (heading_rx alnum ws) 35 \<and> keeps_heading (heading_rx alnum ws)) ms"
    by (simp_all add: m)
  from av kh Cons.prems(2)
  have "contains (ustr ''## Responsibilities'') (re_sub (heading_rx alnum ws) (ustr rpl) t)"
    unfolding re_sub_def by (rule rx_sub_keeps)
  with rest have "contains (ustr ''## Responsibilities'')
      (apply_mapping alnum ms (re_sub (heading_rx alnum ws) (ustr rpl) t))"
    by (rule Cons.IH)
  then show ?case by (simp add: m)
qed

section \<open>The heading of the responsibilities\<close>

text \<open>
  C8.  The key of the second entry is \<^verbatim>\<open>(?i)\b(responsibilities|duties|tasks)\b\<close>: the word
  has to stand between two word boundaries.  If that pattern is found in the text when its
  turn comes, that is in the document (passed through \<open>markdownify\<close> when it was detected as
  HTML) after the substitution of the first entry, then the output of \<open>convert_to_markdown\<close>
  contains \<open>## Responsibilities\<close>: the eight later substitutions and the final \<open>strip\<close>
  leave that heading in place.
\<close>

theorem convert_to_markdown_heading:
  "re_search (heading_rx alnum [''responsibilities'', ''duties'', ''tasks''])
     (re_sub (heading_rx alnum [''job description'', ''overview'', ''summary''])
        (ustr ''## Job Description'')
        (if detect_format text = ustr ''html'' then md text else text)) \<noteq> None
   \<Longrightarrow> contains (ustr ''## Responsibilities'') (convert_to_markdown md alnum text)"
proof -
  let ?t0 = "if detect_format text = ustr ''html'' then md text else text"
  let ?t1 = "re_sub (heading_rx alnum [''job description'', ''overview'', ''summary''])
        (ustr ''## Job Description'') ?t0"
  let ?r2 = "heading_rx alnum [''responsibilities'', ''duties'', ''tasks'']"
  let ?H = "ustr ''## Responsibilities''"
  assume "re_search ?r2 ?t1 \<noteq> None"
  then have "contains ?H (re_sub ?r2 ?H ?t1)" by (rule re_search_sub_contains)
  with later_patterns have "contains ?H (apply_mapping alnum (drop 2 mapping) (re_sub ?r2 ?H ?t1))"
    by (rule apply_mapping_keeps)
  moreover have "apply_mapping alnum mapping ?t0
      = apply_mapping alnum (drop 2 mapping) (re_sub ?r2 ?H ?t1)"
    by (simp add: mapping_def)
  ultimately have "contains ?H (apply_mapping alnum mapping ?t0)" by simp
  moreover have "?H \<noteq> []" "\<not> is_space (hd ?H)" "\<not> is_space (last ?H)"
    by (simp_all add: ustr_def is_space_def)
  ultimately have "contains ?H (strip (apply_mapping alnum mapping ?t0))"
    by (rule strip_contains)
  then show ?thesis by (simp only: convert_to_markdown_def)
qed


theorem convert_to_markdown_heading_witness:
  "re_search (heading_rx (\<lambda>c. False) [''responsibilities'', ''duties'', ''tasks''])
     (re_sub (heading_rx (\<lambda>c. False) [''job description'', ''overview'', ''summary''])
        (ustr ''## Job Description'')
        (if detect_format (ustr ''Summary: key RESPONSIBILITIES, pay'') = ustr ''html''
         then ustr ''Summary: key RESPONSIBILITIES, pay''
         else ustr ''Summary: key RESPONSIBILITIES, pay'')) \<noteq> None
   \<and> contains (ustr ''## Responsibilities'')
        (convert_to_markdown (\<lambda>t. t) (\<lambda>c. False) (ustr ''Summary: key RESPONSIBILITIES, pay''))
   \<and> convert_to_markdown (\<lambda>t. t) (\<lambda>c. False) (ustr ''Summary: key RESPONSIBILITIES, pay'')
     = ustr ''## Job Description: key ## Responsibilities, ## Compensation''"
proof -
  let ?T = "ustr ''Summary: key RESPONSIBILITIES, pay''"
  have h: "re_search (heading_rx (\<lambda>c. False) [''responsibilities'', ''duties'', ''tasks''])
     (re_sub (heading_rx (\<lambda>c. False) [''job description'', ''overview'', ''summary''])
        (ustr ''## Job Description'')
        (if detect_format ?T = ustr ''html'' then ?T else ?T)) \<noteq> None"
    by (simp add: rx_eval parser_eval)
  have v: "convert_to_markdown (\<lambda>t. t) (\<lambda>c. False) ?T
      = ustr ''## Job Description: key ## Responsibilities, ## Compensation''"
    by (simp add: rx_eval parser_eval)
  from h have "contains (ustr ''## Responsibilities'')
      (convert_to_markdown (\<lambda>t. t) (\<lambda>c. False) ?T)"
    by (rule convert_to_markdown_heading [where md = "\<lambda>t. t"])
  with h v show ?thesis by (intro conjI)
qed

text \<open>
  The word inside a longer word is not at a word boundary: the document
  \<open>Coresponsibilities_2024\<close> contains \<open>responsibilities\<close> and comes out unchanged.
\<close>

theorem convert_to_markdown_inside_word_counterexample:
  "re_search (lit_ci ''Responsibilities'') (ustr ''Coresponsibilities_2024'') \<noteq> None
   \<and> convert_to_markdown (\<lambda>t. t) (\<lambda>c. False) (ustr ''Coresponsibilities_2024'')
     = ustr ''Coresponsibilities_2024''
   \<and> \<not> contains (ustr ''## Responsibilities'')
        (convert_to_markdown (\<lambda>t. t) (\<lambda>c. False) (ustr ''Coresponsibilities_2024''))"
proof -
  have a: "re_search (lit_ci ''Responsibilities'') (ustr ''Coresponsibilities_2024'') \<noteq> None"
    by (simp add: rx_eval)
  have b: "convert_to_markdown (\<lambda>t. t) (\<lambda>c. False) (ustr ''Coresponsibilities_2024'')
      = ustr ''Coresponsibilities_2024''"
    by (simp add: rx_eval parser_eval)
  have c: "\<not> contains (ustr ''## Responsibilities'') (ustr ''Coresponsibilities_2024'')"
    by (simp add: ustr_def)
  from a b c show ?thesis by (simp only:) simp
qed

end
